theory Spec2Isabelle
  imports Main "HOL-Library.Word"
begin

unbundle bit_operations_syntax


section \<open>Constants and faults\<close>

text \<open>
  The limits of \<^verbatim>\<open>main.c\<close>. C \<^verbatim>\<open>int\<close> variables are modelled as \<^typ>\<open>int\<close>:
  \<^verbatim>\<open>len\<close>, \<^verbatim>\<open>pos\<close> and \<^verbatim>\<open>history_index\<close> stay far below \<open>2^31\<close>.
  \<^verbatim>\<open>history_count\<close> grows by one per submitted line and is never reset, so its
  increment is the one place where the 32-bit range matters: \<open>int_wrap\<close> is the value a
  32-bit two's complement \<^verbatim>\<open>int\<close> holds after an arithmetic result \<open>x\<close>, so that
  \<open>INT_MAX + 1\<close> becomes \<open>- 2^31\<close> (in C the overflow itself is undefined).
\<close>

definition MAX_ARGS :: nat where "MAX_ARGS = 64"
definition MAX_CMD_LEN :: nat where "MAX_CMD_LEN = 1024"
definition MAX_PIPES :: nat where "MAX_PIPES = 10"
definition MAX_HISTORY :: nat where "MAX_HISTORY = 100"
definition INT_MAX :: int where "INT_MAX = 2147483647"

definition int_wrap :: "int \<Rightarrow> int" where
  "int_wrap x = (x + 2147483648) mod 4294967296 - 2147483648"

text \<open>
  What C leaves undefined is a value of the model: an access outside the
  \<^verbatim>\<open>history\<close> array, a null pointer handed to a string function, a write or read
  outside a character buffer, a string function that runs off a buffer with no
  terminator, an access outside the \<^verbatim>\<open>pipeline\<close> array.
\<close>

datatype fault =
  History_out_of_bounds | Null_pointer | Buffer_overflow | No_terminator | Stage_out_of_bounds

section \<open>History store\<close>

text \<open>
  \<^verbatim>\<open>char *history[MAX_HISTORY]\<close> is a list of \<open>MAX_HISTORY\<close> slots, \<open>None\<close> for the
  null pointer of a global that was never assigned. \<^verbatim>\<open>strdup\<close> copies, so a slot
  holds the string itself.
\<close>

record history_store =
  history :: "string option list"
  history_count :: int

definition init_history :: history_store where
  "init_history = \<lparr>history = replicate MAX_HISTORY None, history_count = 0\<rparr>"

text \<open>The loop \<^verbatim>\<open>for (i = 0; i < MAX_HISTORY-1; i++) history[i] = history[i+1];\<close>\<close>

function shift_history :: "nat \<Rightarrow> string option list \<Rightarrow> string option list" where
  "shift_history i h =
     (if i < MAX_HISTORY - 1 then shift_history (i + 1) (h[i := h ! (i + 1)]) else h)"
  by pat_completeness auto
termination
  by (relation "measure (\<lambda>(i, h). MAX_HISTORY - 1 - i)") auto

text \<open>
  \<^verbatim>\<open>add_to_history\<close>. While \<open>0 \<le> history_count < MAX_HISTORY\<close> the line goes into the
  slot \<^verbatim>\<open>history[history_count]\<close>; from \<open>MAX_HISTORY\<close> on the array is shifted and the
  line goes into the last slot. A negative \<^verbatim>\<open>history_count\<close>, which only a wrapped
  counter can be, makes the C code write in front of the array, which is undefined; the
  statements below about the contents of the store are about counts that are not
  negative.
\<close>

definition add_to_history :: "history_store \<Rightarrow> string \<Rightarrow> history_store" where
  "add_to_history hs cmd =
     (if cmd = [] then hs
      else
        (let h' = (if history_count hs < int MAX_HISTORY
                   then (history hs)[nat (history_count hs) := Some cmd]
                   else (shift_history 0 (history hs))[MAX_HISTORY - 1 := Some cmd])
         in hs\<lparr>history := h', history_count := int_wrap (history_count hs + 1)\<rparr>))"


text \<open>Submitting a sequence of lines, oldest first.\<close>

definition submit_all :: "history_store \<Rightarrow> string list \<Rightarrow> history_store" where
  "submit_all hs ls = foldl add_to_history hs ls"

text \<open>A family of distinct non-empty lines: \<open>a\<close>, \<open>aa\<close>, \<open>aaa\<close>, ...\<close>

definition sample_line :: "nat \<Rightarrow> string" where
  "sample_line n = replicate (Suc n) (CHR ''a'')"

definition sample_lines :: "nat \<Rightarrow> string list" where
  "sample_lines n = map sample_line [0..<n]"


section \<open>Terminal modes\<close>

text \<open>
  \<^verbatim>\<open>struct termios\<close> with the flag words of the terminal and its control
  characters. \<open>ICANON\<close> and \<open>ECHO\<close> come from the system's \<^verbatim>\<open>termios.h\<close>, which is
  not part of the repository; the values are those of Linux, and no theorem below
  depends on them.
\<close>

record termios =
  c_iflag :: "32 word"
  c_oflag :: "32 word"
  c_cflag :: "32 word"
  c_lflag :: "32 word"
  c_cc :: "8 word list"

definition ICANON :: "32 word" where "ICANON = 0x2"
definition ECHO :: "32 word" where "ECHO = 0x8"

text \<open>
  The terminal behind \<^verbatim>\<open>STDIN_FILENO\<close>: its current attributes, the global
  \<^verbatim>\<open>orig_termios\<close>, and the attributes of every \<^verbatim>\<open>tcsetattr\<close> call made so far,
  oldest first. Both calls are taken to succeed (standard input is a terminal).
\<close>

record terminal =
  tty :: termios
  orig_termios :: termios
  tty_log :: "termios list"

definition tcsetattr :: "terminal \<Rightarrow> termios \<Rightarrow> terminal" where
  "tcsetattr t a = t\<lparr>tty := a, tty_log := tty_log t @ [a]\<rparr>"

definition disableRawMode :: "terminal \<Rightarrow> terminal" where
  "disableRawMode t = tcsetattr t (orig_termios t)"

definition raw_of :: "termios \<Rightarrow> termios" where
  "raw_of a = a\<lparr>c_lflag := c_lflag a AND NOT (ICANON OR ECHO)\<rparr>"

definition enableRawMode :: "terminal \<Rightarrow> terminal" where
  "enableRawMode t =
     (let t1 = t\<lparr>orig_termios := tty t\<rparr>;
          raw = raw_of (orig_termios t1)
      in tcsetattr t1 raw)"

section \<open>C strings and buffers\<close>

text \<open>
  A character array is the list of its bytes. A heap string (the result of
  \<^verbatim>\<open>strdup\<close>) is the list of its bytes before the terminator.
\<close>

definition NUL :: char where "NUL = CHR 0x00"

definition and_then :: "fault + 'a \<Rightarrow> ('a \<Rightarrow> fault + 'b) \<Rightarrow> fault + 'b" where
  "and_then m f = (case m of Inl e \<Rightarrow> Inl e | Inr x \<Rightarrow> f x)"

text \<open>The bytes of a buffer before its first \<open>NUL\<close>.\<close>

definition c_str :: "char list \<Rightarrow> string" where
  "c_str buf = takeWhile (\<lambda>c. c \<noteq> NUL) buf"

definition strlen :: "char list \<Rightarrow> fault + nat" where
  "strlen buf = (if NUL \<in> set buf then Inr (length (c_str buf)) else Inl No_terminator)"

text \<open>
  \<^verbatim>\<open>strncpy(dst, src, n)\<close>: the first \<open>n\<close> bytes of \<open>dst\<close> become the string \<open>src\<close>
  cut at \<open>n\<close> bytes and padded with \<open>NUL\<close> up to \<open>n\<close>; no terminator is written when
  \<open>src\<close> has \<open>n\<close> bytes or more.
\<close>

definition strncpy :: "char list \<Rightarrow> string \<Rightarrow> nat \<Rightarrow> fault + char list" where
  "strncpy dst src n =
     (if n \<le> length dst then Inr (take n (src @ replicate n NUL) @ drop n dst)
      else Inl Buffer_overflow)"

text \<open>\<^verbatim>\<open>memmove(&buf[dst], &buf[src], n)\<close> within one buffer.\<close>

definition memmove :: "char list \<Rightarrow> int \<Rightarrow> int \<Rightarrow> int \<Rightarrow> fault + char list" where
  "memmove buf dst src n =
     (if 0 \<le> n \<and> 0 \<le> dst \<and> 0 \<le> src \<and> dst + n \<le> int (length buf) \<and> src + n \<le> int (length buf)
      then Inr (take (nat dst) buf @ take (nat n) (drop (nat src) buf) @ drop (nat (dst + n)) buf)
      else Inl Buffer_overflow)"

text \<open>The assignment \<^verbatim>\<open>buf[i] = c\<close>.\<close>

definition poke :: "char list \<Rightarrow> int \<Rightarrow> char \<Rightarrow> fault + char list" where
  "poke buf i c =
     (if 0 \<le> i \<and> i < int (length buf) then Inr (buf[nat i := c]) else Inl Buffer_overflow)"

text \<open>\<^verbatim>\<open>isprint\<close> in the C locale (the program never sets another).\<close>

definition isprint :: "char \<Rightarrow> bool" where
  "isprint c = (0x20 \<le> (of_char c :: nat) \<and> (of_char c :: nat) \<le> 0x7E)"

section \<open>Line editor\<close>

text \<open>
  The local state of \<^verbatim>\<open>read_line\<close>. What the function prints (the redraws) is not
  modelled: no claim is about the screen.
\<close>

record editor =
  line :: "char list"
  saved_line :: "char list"
  len :: int
  pos :: int
  history_index :: int

definition init_editor :: editor where
  "init_editor =
     \<lparr>line = replicate MAX_CMD_LEN NUL, saved_line = replicate MAX_CMD_LEN NUL,
      len = 0, pos = 0, history_index = 0\<rparr>"

text \<open>The read \<^verbatim>\<open>history[idx]\<close> as a string argument.\<close>

definition history_at :: "history_store \<Rightarrow> int \<Rightarrow> fault + string" where
  "history_at hs idx =
     (if 0 \<le> idx \<and> idx < int MAX_HISTORY
      then (case history hs ! nat idx of None \<Rightarrow> Inl Null_pointer | Some s \<Rightarrow> Inr s)
      else Inl History_out_of_bounds)"

text \<open>\<^verbatim>\<open>int idx = history_count - history_index; if (idx < 0) idx = 0;\<close>\<close>

definition recall_idx :: "history_store \<Rightarrow> editor \<Rightarrow> int" where
  "recall_idx hs e =
     (let idx = history_count hs - history_index e in if idx < 0 then 0 else idx)"

text \<open>\<^verbatim>\<open>strncpy(line, s, MAX_CMD_LEN); len = strlen(line); pos = len;\<close>\<close>

definition load_line :: "editor \<Rightarrow> string \<Rightarrow> fault + editor" where
  "load_line e s =
     and_then (strncpy (line e) s MAX_CMD_LEN) (\<lambda>l.
     and_then (strlen l) (\<lambda>n.
     Inr (e\<lparr>line := l, len := int n, pos := int n\<rparr>)))"

text \<open>\<^verbatim>\<open>case 'A'\<close>: Up.\<close>

definition arrow_up :: "history_store \<Rightarrow> editor \<Rightarrow> fault + editor" where
  "arrow_up hs e =
     (if history_index e < history_count hs then
        and_then
          (if history_index e = 0
           then and_then (strncpy (saved_line e) (c_str (line e)) MAX_CMD_LEN)
                  (\<lambda>s. Inr (e\<lparr>saved_line := s\<rparr>))
           else Inr e)
          (\<lambda>e1.
            let e2 = e1\<lparr>history_index := history_index e1 + 1\<rparr>;
                idx = recall_idx hs e2
            in if idx < history_count hs
               then and_then (history_at hs idx) (load_line e2)
               else Inr e2)
      else Inr e)"

text \<open>\<^verbatim>\<open>case 'B'\<close>: Down.\<close>

definition arrow_down :: "history_store \<Rightarrow> editor \<Rightarrow> fault + editor" where
  "arrow_down hs e =
     (if history_index e > 0 then
        (let e1 = e\<lparr>history_index := history_index e - 1\<rparr>
         in if history_index e1 = 0 then load_line e1 (c_str (saved_line e1))
            else
              (let idx = recall_idx hs e1
               in if idx < history_count hs
                  then and_then (history_at hs idx) (load_line e1)
                  else Inr e1))
      else Inr e)"

text \<open>\<^verbatim>\<open>case 'C'\<close> and \<^verbatim>\<open>case 'D'\<close>: Right and Left.\<close>

definition arrow_right :: "editor \<Rightarrow> editor" where
  "arrow_right e = (if pos e < len e then e\<lparr>pos := pos e + 1\<rparr> else e)"

definition arrow_left :: "editor \<Rightarrow> editor" where
  "arrow_left e = (if pos e > 0 then e\<lparr>pos := pos e - 1\<rparr> else e)"

text \<open>The branch \<^verbatim>\<open>c == 127 || c == 8\<close>.\<close>

definition backspace :: "editor \<Rightarrow> fault + editor" where
  "backspace e =
     (if pos e > 0 \<and> len e > 0 then
        and_then (memmove (line e) (pos e - 1) (pos e) (len e - pos e + 1)) (\<lambda>l1.
        and_then (poke l1 (len e - 1) NUL) (\<lambda>l2.
        Inr (e\<lparr>line := l2, len := len e - 1, pos := pos e - 1\<rparr>)))
      else Inr e)"

text \<open>The branch \<^verbatim>\<open>isprint(c)\<close>.\<close>

definition insert_char :: "editor \<Rightarrow> char \<Rightarrow> fault + editor" where
  "insert_char e c =
     (if len e < int MAX_CMD_LEN - 1 then
        and_then (memmove (line e) (pos e + 1) (pos e) (len e - pos e + 1)) (\<lambda>l1.
        and_then (poke l1 (pos e) c) (\<lambda>l2.
        and_then (poke l2 (len e + 1) NUL) (\<lambda>l3.
        Inr (e\<lparr>line := l3, len := len e + 1, pos := pos e + 1\<rparr>))))
      else Inr e)"

text \<open>
  One pass through the body of \<^verbatim>\<open>while (1)\<close>. The input is the list of bytes that
  \<^verbatim>\<open>read\<close> will deliver; a \<^verbatim>\<open>read\<close> that does not return 1 (end of input or an
  error) is the empty list. The result says whether the loop goes on or was left by
  \<^verbatim>\<open>break\<close>, and what input remains.
\<close>

datatype step = Continue editor | Break editor

definition escape_key :: "history_store \<Rightarrow> editor \<Rightarrow> char \<Rightarrow> char \<Rightarrow> fault + editor" where
  "escape_key hs e s0 s1 =
     (if s0 = CHR ''['' then
        (if s1 = CHR ''A'' then arrow_up hs e
         else if s1 = CHR ''B'' then arrow_down hs e
         else if s1 = CHR ''C'' then Inr (arrow_right e)
         else if s1 = CHR ''D'' then Inr (arrow_left e)
         else Inr e)
      else Inr e)"

definition loop_body :: "history_store \<Rightarrow> editor \<Rightarrow> char list \<Rightarrow> fault + (step \<times> char list)" where
  "loop_body hs e inp =
     (case inp of
        [] \<Rightarrow> Inr (Break (e\<lparr>len := 0\<rparr>), [])
      | c # r \<Rightarrow>
          if c = CHR 0x0A then Inr (Break e, r)
          else if c = CHR 0x1B then
            (case r of
               [] \<Rightarrow> Inr (Break e, [])
             | s0 # r1 \<Rightarrow>
                 (case r1 of
                    [] \<Rightarrow> Inr (Break e, [])
                  | s1 # r2 \<Rightarrow>
                      and_then (escape_key hs e s0 s1) (\<lambda>e'. Inr (Continue e', r2))))
          else if c = CHR 0x7F \<or> c = CHR 0x08 then
            and_then (backspace e) (\<lambda>e'. Inr (Continue e', r))
          else if isprint c then
            and_then (insert_char e c) (\<lambda>e'. Inr (Continue e', r))
          else Inr (Continue e, r))"

function read_loop :: "history_store \<Rightarrow> editor \<Rightarrow> char list \<Rightarrow> fault + (editor \<times> char list)" where
  "read_loop hs e inp =
     (case loop_body hs e inp of
        Inl f \<Rightarrow> Inl f
      | Inr (Break e', r) \<Rightarrow> Inr (e', r)
      | Inr (Continue e', r) \<Rightarrow> read_loop hs e' r)"
  by pat_completeness auto
termination
proof (relation "measure (\<lambda>(hs, e, inp). length inp)")
  show "wf (measure (\<lambda>(hs, e, inp). length inp))" by simp
next
  fix hs :: history_store and e :: editor and inp :: "char list" and b x1 x2 x2a
  assume "loop_body hs e inp = Inr b" and "(x1, x2) = b" and "x1 = Continue x2a"
  then have "loop_body hs e inp = Inr (Continue x2a, x2)" by simp
  then have "length x2 < length inp"
    by (auto simp: loop_body_def and_then_def split: list.splits if_splits sum.splits)
  then show "((hs, x2a, x2), (hs, e, inp)) \<in> measure (\<lambda>(hs, e, inp). length inp)" by simp
qed

text \<open>
  \<^verbatim>\<open>read_line\<close>: the shell's globals it touches are the history store and the
  terminal. It returns the new globals, the string handed back by \<^verbatim>\<open>strdup(line)\<close>
  and the input not yet read.
\<close>

record shell =
  store :: history_store
  terminal :: terminal

definition read_line :: "shell \<Rightarrow> char list \<Rightarrow> fault + (shell \<times> string \<times> char list)" where
  "read_line sh inp =
     (let t1 = enableRawMode (terminal sh)
      in and_then (read_loop (store sh) init_editor inp) (\<lambda>(e, rest).
           let t2 = disableRawMode t1
           in and_then (strlen (line e)) (\<lambda>_.
                let hs' = (if len e > 0 then add_to_history (store sh) (c_str (line e))
                           else store sh)
                in Inr (\<lparr>store = hs', terminal = t2\<rparr>, c_str (line e), rest))))"

section \<open>Well-formed editor states\<close>

text \<open>
  A buffer is well formed at length \<open>n\<close> when it has \<open>MAX_CMD_LEN\<close> bytes, its first
  \<open>n\<close> bytes are not \<open>NUL\<close>, and every byte from \<open>n\<close> on is \<open>NUL\<close>: it is terminated
  at \<open>n\<close>, with \<open>n \<le> MAX_CMD_LEN - 1\<close>.
\<close>

definition wf_buffer :: "char list \<Rightarrow> nat \<Rightarrow> bool" where
  "wf_buffer buf n =
     (length buf = MAX_CMD_LEN \<and> n < MAX_CMD_LEN \<and> NUL \<notin> set (take n buf) \<and>
      drop n buf = replicate (MAX_CMD_LEN - n) NUL)"

definition wf_editor :: "editor \<Rightarrow> bool" where
  "wf_editor e =
     (0 \<le> pos e \<and> pos e \<le> len e \<and> len e \<le> int MAX_CMD_LEN - 1 \<and> 0 \<le> history_index e \<and>
      wf_buffer (line e) (nat (len e)) \<and>
      wf_buffer (saved_line e) (length (c_str (saved_line e))))"

text \<open>
  The store is well formed when the array has its \<open>MAX_HISTORY\<close> slots and every slot
  below \<open>history_count\<close> holds a string that fits a line buffer.
\<close>

definition wf_entry :: "string option \<Rightarrow> bool" where
  "wf_entry x = (case x of None \<Rightarrow> False | Some s \<Rightarrow> NUL \<notin> set s \<and> length s < MAX_CMD_LEN)"

definition wf_store :: "history_store \<Rightarrow> bool" where
  "wf_store hs =
     (length (history hs) = MAX_HISTORY \<and> 0 \<le> history_count hs \<and>
      list_all wf_entry (take (nat (history_count hs)) (history hs)))"

text \<open>A shell that has just started on a terminal in cooked mode, for examples.\<close>

definition sample_termios :: termios where
  "sample_termios =
     \<lparr>c_iflag = 0x4500, c_oflag = 0x5, c_cflag = 0xBF, c_lflag = 0x8A3B, c_cc = []\<rparr>"

definition sample_shell :: shell where
  "sample_shell =
     \<lparr>store = init_history,
      terminal = \<lparr>tty = sample_termios, orig_termios = sample_termios, tty_log = []\<rparr>\<rparr>"

text \<open>
  An editor state with the cursor inside the line (after typing \<open>ab\<close> and pressing
  Left), and a store holding one submitted line.
\<close>

definition mid_cursor_editor :: editor where
  "mid_cursor_editor =
     \<lparr>line = ''ab'' @ replicate (MAX_CMD_LEN - 2) NUL, saved_line = replicate MAX_CMD_LEN NUL,
      len = 2, pos = 1, history_index = 0\<rparr>"

definition one_line_store :: history_store where
  "one_line_store = add_to_history init_history ''ls''"


section \<open>Parser\<close>

text \<open>
  \<^verbatim>\<open>Command\<close>: \<open>args\<close> is the list of argument strings before the \<^verbatim>\<open>NULL\<close> sentinel
  (\<open>args = []\<close> is \<^verbatim>\<open>args[0] == NULL\<close>); a null file pointer is \<open>None\<close>; the two
  \<^verbatim>\<open>int\<close> flags only ever hold 0 or 1. The field \<^verbatim>\<open>append\<close> is \<open>append_flag\<close> here.
\<close>

record Command =
  args :: "string list"
  input_file :: "string option"
  output_file :: "string option"
  append_flag :: bool
  background :: bool

definition empty_command :: Command where
  "empty_command =
     \<lparr>args = [], input_file = None, output_file = None, append_flag = False, background = False\<rparr>"

definition dquote :: char where "dquote = CHR 0x22"

text \<open>The delimiter strings \<^verbatim>\<open>" \t"\<close>, \<^verbatim>\<open>"|"\<close> and \<^verbatim>\<open>"\""\<close>.\<close>

definition blanks :: string where "blanks = [CHR '' '', CHR 0x09]"
definition bar :: string where "bar = ''|''"
definition quotes :: string where "quotes = [dquote]"

text \<open>
  \<^verbatim>\<open>strtok_r(str, delim, &saveptr)\<close>. The first argument of the model is the string
  the scan starts from: \<^verbatim>\<open>str\<close> on a first call, the string at \<^verbatim>\<open>saveptr\<close> on a call
  with \<^verbatim>\<open>NULL\<close>. The result is the token (\<open>None\<close> for \<^verbatim>\<open>NULL\<close>) and the string left at
  \<^verbatim>\<open>saveptr\<close>. The scan skips leading delimiters, takes the bytes up to the next
  delimiter, overwrites that delimiter with the terminator and continues after it.
\<close>

definition strtok_r :: "string \<Rightarrow> string \<Rightarrow> string option \<times> string" where
  "strtok_r s delim =
     (let s1 = dropWhile (\<lambda>c. c \<in> set delim) s
      in if s1 = [] then (None, [])
         else (Some (takeWhile (\<lambda>c. c \<notin> set delim) s1),
               drop 1 (dropWhile (\<lambda>c. c \<notin> set delim) s1)))"

text \<open>
  The trimming of a segment: \<^verbatim>\<open>while (*token == ' ') token++;\<close>, then the index
  \<^verbatim>\<open>end\<close> walks back from the last byte while \<^verbatim>\<open>end > token && *end == ' '\<close>, and
  the segment is cut after \<^verbatim>\<open>end\<close>.
\<close>

fun trim_end :: "string \<Rightarrow> nat \<Rightarrow> nat" where
  "trim_end t 0 = 0"
| "trim_end t (Suc e) = (if t ! Suc e = CHR '' '' then trim_end t e else Suc e)"

definition trim :: "string \<Rightarrow> string" where
  "trim token =
     (let t = dropWhile (\<lambda>c. c = CHR '' '') token
      in if t = [] then [] else take (Suc (trim_end t (length t - 1))) t)"

text \<open>
  The branch for \<^verbatim>\<open>>\<close> and \<^verbatim>\<open>>>\<close>: the next token is the file name; a file name
  that starts with a quote is replaced by the next token delimited by quotes; the
  walk over the segment ends here.
\<close>

definition redirect_output :: "string \<Rightarrow> string \<Rightarrow> Command \<Rightarrow> Command" where
  "redirect_output a sp cmd =
     (case strtok_r sp blanks of
        (None, sp1) \<Rightarrow> cmd
      | (Some file, sp1) \<Rightarrow>
          (let file' = (if hd file = dquote then fst (strtok_r sp1 quotes) else Some file)
           in case file' of
                None \<Rightarrow> cmd
              | Some f \<Rightarrow> cmd\<lparr>output_file := Some f, append_flag := (a = ''>>'')\<rparr>))"

text \<open>The branch for \<^verbatim>\<open><\<close>.\<close>

definition redirect_input :: "string \<Rightarrow> Command \<Rightarrow> Command" where
  "redirect_input sp cmd =
     (case fst (strtok_r sp blanks) of
        None \<Rightarrow> cmd
      | Some f \<Rightarrow> cmd\<lparr>input_file := Some f\<rparr>)"

text \<open>
  The test \<^verbatim>\<open>arg[0] == '"'\<close> with \<^verbatim>\<open>strchr(arg + 1, '"')\<close> not null, the string
  \<^verbatim>\<open>arg + 1\<close> after \<^verbatim>\<open>*end_quote = '\0'\<close>, and the string at \<^verbatim>\<open>end_quote + 1\<close>.
\<close>

definition closed_quote :: "string \<Rightarrow> bool" where
  "closed_quote a = (a \<noteq> [] \<and> hd a = dquote \<and> dquote \<in> set (tl a))"

definition quoted_part :: "string \<Rightarrow> string" where
  "quoted_part a = takeWhile (\<lambda>c. c \<noteq> dquote) (tl a)"

definition after_quote :: "string \<Rightarrow> string" where
  "after_quote a = drop 1 (dropWhile (\<lambda>c. c \<noteq> dquote) (tl a))"

text \<open>
  The inner loop \<^verbatim>\<open>while (arg != NULL && i < MAX_ARGS - 1)\<close>. The counter \<open>i\<close> is
  the number of arguments stored so far, \<open>length (args cmd)\<close>.
\<close>

function parse_args :: "string option \<Rightarrow> string \<Rightarrow> Command \<Rightarrow> Command" where
  "parse_args arg sp cmd =
     (case arg of
        None \<Rightarrow> cmd
      | Some a \<Rightarrow>
          if \<not> length (args cmd) < MAX_ARGS - 1 then cmd
          else if a = ''>'' \<or> a = ''>>'' then redirect_output a sp cmd
          else if a = ''<'' then redirect_input sp cmd
          else if a = ''&'' then
            parse_args (fst (strtok_r sp blanks)) (snd (strtok_r sp blanks))
              (cmd\<lparr>background := True\<rparr>)
          else if closed_quote a then
            parse_args (Some (after_quote a)) sp (cmd\<lparr>args := args cmd @ [quoted_part a]\<rparr>)
          else
            parse_args (fst (strtok_r sp blanks)) (snd (strtok_r sp blanks))
              (cmd\<lparr>args := args cmd @ [a]\<rparr>))"
  by pat_completeness auto
termination
proof (relation "measure (\<lambda>(arg, sp, cmd). case arg of None \<Rightarrow> 0 | Some a \<Rightarrow> 1 + 2 * length sp + length a)")
  show "wf (measure (\<lambda>(arg, sp, cmd). case arg of None \<Rightarrow> 0 | Some a \<Rightarrow> 1 + 2 * length sp + length a))"
    by simp
next
  have tok: "(case fst (strtok_r sp blanks) of None \<Rightarrow> 0
               | Some a' \<Rightarrow> 1 + 2 * length (snd (strtok_r sp blanks)) + length a')
             < 1 + 2 * length sp + length a" for sp a
  proof (cases "dropWhile (\<lambda>c. c \<in> set blanks) sp")
    case Nil
    then show ?thesis by (simp add: strtok_r_def)
  next
    case (Cons x xs)
    then have x: "x \<notin> set blanks"
      using hd_dropWhile[of "\<lambda>c. c \<in> set blanks" sp] by simp
    have l: "length (x # xs) \<le> length sp"
      using length_dropWhile_le[of "\<lambda>c. c \<in> set blanks" sp] Cons by simp
    have "length (takeWhile (\<lambda>c. c \<notin> set blanks) xs) +
          length (dropWhile (\<lambda>c. c \<notin> set blanks) xs) = length xs"
      using takeWhile_dropWhile_id[of "\<lambda>c. c \<notin> set blanks" xs] by (metis length_append)
    then show ?thesis using Cons x l by (simp add: strtok_r_def)
  qed
  fix arg :: "string option" and sp :: string and cmd :: Command and a :: string
  assume "arg = Some a"
  then show "((fst (strtok_r sp blanks), snd (strtok_r sp blanks), cmd\<lparr>background := True\<rparr>), arg, sp, cmd)
       \<in> measure (\<lambda>(arg, sp, cmd). case arg of None \<Rightarrow> 0 | Some a \<Rightarrow> 1 + 2 * length sp + length a)"
    using tok[of sp a] by simp
  show "((fst (strtok_r sp blanks), snd (strtok_r sp blanks), cmd\<lparr>args := args cmd @ [a]\<rparr>), arg, sp, cmd)
       \<in> measure (\<lambda>(arg, sp, cmd). case arg of None \<Rightarrow> 0 | Some a \<Rightarrow> 1 + 2 * length sp + length a)"
    using tok[of sp a] \<open>arg = Some a\<close> by simp
  assume "closed_quote a"
  then have "0 < length a" by (simp add: closed_quote_def)
  moreover have "length (dropWhile (\<lambda>c. c \<noteq> dquote) (tl a)) \<le> length (tl a)"
    by (rule length_dropWhile_le)
  ultimately have "length (after_quote a) < length a"
    unfolding after_quote_def length_drop length_tl by linarith
  then show "((Some (after_quote a), sp, cmd\<lparr>args := args cmd @ [quoted_part a]\<rparr>), arg, sp, cmd)
       \<in> measure (\<lambda>(arg, sp, cmd). case arg of None \<Rightarrow> 0 | Some a \<Rightarrow> 1 + 2 * length sp + length a)"
    using \<open>arg = Some a\<close> by simp
qed

text \<open>
  One segment that is not empty after trimming: the fields are initialised, the first
  token is taken and the inner loop runs; \<^verbatim>\<open>args[i] = NULL\<close> closes the list.
\<close>

definition parse_command :: "string \<Rightarrow> Command" where
  "parse_command seg =
     parse_args (fst (strtok_r seg blanks)) (snd (strtok_r seg blanks)) empty_command"

text \<open>
  The outer loop \<^verbatim>\<open>while (token != NULL && cmd_count < MAX_PIPES)\<close>; \<open>cmd_count\<close> is
  the length of the pipeline built so far.
\<close>

function parse_segments :: "string option \<Rightarrow> string \<Rightarrow> Command list \<Rightarrow> Command list" where
  "parse_segments token sp pipeline =
     (case token of
        None \<Rightarrow> pipeline
      | Some t \<Rightarrow>
          if \<not> length pipeline < MAX_PIPES then pipeline
          else if trim t = [] then
            parse_segments (fst (strtok_r sp bar)) (snd (strtok_r sp bar)) pipeline
          else
            parse_segments (fst (strtok_r sp bar)) (snd (strtok_r sp bar))
              (pipeline @ [parse_command (trim t)]))"
  by pat_completeness auto
termination
proof (relation "measure (\<lambda>(token, sp, pipeline). case token of None \<Rightarrow> 0 | Some t \<Rightarrow> 1 + length sp)")
  show "wf (measure (\<lambda>(token, sp, pipeline). case token of None \<Rightarrow> 0 | Some t \<Rightarrow> 1 + length sp))"
    by simp
next
  have tok: "(case fst (strtok_r sp bar) of None \<Rightarrow> 0
               | Some t' \<Rightarrow> 1 + length (snd (strtok_r sp bar))) < 1 + length sp" for sp
  proof (cases "dropWhile (\<lambda>c. c \<in> set bar) sp")
    case Nil
    then show ?thesis by (simp add: strtok_r_def)
  next
    case (Cons x xs)
    then have x: "x \<notin> set bar"
      using hd_dropWhile[of "\<lambda>c. c \<in> set bar" sp] by simp
    have l: "length (x # xs) \<le> length sp"
      using length_dropWhile_le[of "\<lambda>c. c \<in> set bar" sp] Cons by simp
    have "length (dropWhile (\<lambda>c. c \<notin> set bar) xs) \<le> length xs"
      by (rule length_dropWhile_le)
    then show ?thesis using Cons x l by (simp add: strtok_r_def)
  qed
  fix token :: "string option" and sp :: string and pipeline :: "Command list" and t :: string
  assume "token = Some t"
  then show "((fst (strtok_r sp bar), snd (strtok_r sp bar), pipeline), token, sp, pipeline)
       \<in> measure (\<lambda>(token, sp, pipeline). case token of None \<Rightarrow> 0 | Some t \<Rightarrow> 1 + length sp)"
    using tok[of sp] by simp
  show "((fst (strtok_r sp bar), snd (strtok_r sp bar), pipeline @ [parse_command (trim t)]), token, sp, pipeline)
       \<in> measure (\<lambda>(token, sp, pipeline). case token of None \<Rightarrow> 0 | Some t \<Rightarrow> 1 + length sp)"
    using tok[of sp] \<open>token = Some t\<close> by simp
qed

text \<open>\<^verbatim>\<open>parse_pipeline\<close>: the stages built, in order; their number is \<^verbatim>\<open>cmd_count\<close>.\<close>

definition parse_pipeline :: "string \<Rightarrow> Command list" where
  "parse_pipeline ln = parse_segments (fst (strtok_r ln bar)) (snd (strtok_r ln bar)) []"

text \<open>
  The loop at the head of \<^verbatim>\<open>execute_command\<close>: an argument of at least two bytes that
  starts and ends with a quote loses both.
\<close>

definition unquote :: "string \<Rightarrow> string" where
  "unquote a = (if length a \<ge> 2 \<and> hd a = dquote \<and> last a = dquote then butlast (tl a) else a)"

text \<open>
  For statements about a segment: the tokens \<^verbatim>\<open>strtok_r\<close> cuts it into at blanks,
  what is left of a token once the inner loop has taken its leading quoted spans, and
  the three redirection operators.
\<close>

function ws_tokens :: "string \<Rightarrow> string list" where
  "ws_tokens s =
     (case fst (strtok_r s blanks) of
        None \<Rightarrow> []
      | Some t \<Rightarrow> t # ws_tokens (snd (strtok_r s blanks)))"
  by pat_completeness auto
termination
proof (relation "measure length")
  show "wf (measure length)" by simp
next
  fix s :: string and t :: string
  assume a: "fst (strtok_r s blanks) = Some t"
  show "(snd (strtok_r s blanks), s) \<in> measure length"
  proof (cases "dropWhile (\<lambda>c. c \<in> set blanks) s")
    case Nil
    then show ?thesis using a by (simp add: strtok_r_def)
  next
    case (Cons x xs)
    have l: "length (x # xs) \<le> length s"
      using length_dropWhile_le[of "\<lambda>c. c \<in> set blanks" s] Cons by simp
    have "length (dropWhile (\<lambda>c. c \<notin> set blanks) (x # xs)) \<le> length (x # xs)"
      by (rule length_dropWhile_le)
    then show ?thesis using Cons l by (simp add: strtok_r_def)
  qed
qed

function quote_remainder :: "string \<Rightarrow> string" where
  "quote_remainder a = (if closed_quote a then quote_remainder (after_quote a) else a)"
  by pat_completeness auto
termination
proof (relation "measure length")
  show "wf (measure length)" by simp
next
  fix a :: string
  assume "closed_quote a"
  then have "0 < length a" by (simp add: closed_quote_def)
  moreover have "length (dropWhile (\<lambda>c. c \<noteq> dquote) (tl a)) \<le> length (tl a)"
    by (rule length_dropWhile_le)
  ultimately have "length (after_quote a) < length a"
    unfolding after_quote_def length_drop length_tl by linarith
  then show "(after_quote a, a) \<in> measure length" by simp
qed

definition is_redirect :: "string \<Rightarrow> bool" where
  "is_redirect a = (a = ''<'' \<or> a = ''>'' \<or> a = ''>>'')"

text \<open>
  An operator redirects one of two streams: \<^verbatim>\<open><\<close> the standard input, recorded in
  \<^verbatim>\<open>input_file\<close>; \<^verbatim>\<open>>\<close> and \<^verbatim>\<open>>>\<close> the standard output, recorded in \<^verbatim>\<open>output_file\<close>.
  \<open>first_redirect\<close> is the first redirection operator among tokens, each taken
  without its leading quoted spans.
\<close>

definition same_stream :: "string \<Rightarrow> string \<Rightarrow> bool" where
  "same_stream a b = ((a = ''<'') = (b = ''<''))"

definition stream_file :: "string \<Rightarrow> Command \<Rightarrow> string option" where
  "stream_file op cmd = (if op = ''<'' then input_file cmd else output_file cmd)"

definition first_redirect :: "string list \<Rightarrow> string option" where
  "first_redirect ts = find is_redirect (map quote_remainder ts)"

text \<open>
  The first use \<^verbatim>\<open>main\<close> makes of a pipeline with \<^verbatim>\<open>cmd_count > 0\<close>:
  \<^verbatim>\<open>strcmp(pipeline[0].args[0], "exit") == 0\<close>, with no test of the pointer.
\<close>

definition is_exit :: "Command list \<Rightarrow> fault + bool" where
  "is_exit pipeline =
     (case args (pipeline ! 0) of [] \<Rightarrow> Inl Null_pointer | a # _ \<Rightarrow> Inr (a = ''exit''))"


section \<open>Pipeline executor\<close>

text \<open>
  What a descriptor refers to: something the shell itself inherited at descriptor \<open>n\<close>
  (its terminal, as a rule), a file opened for reading, a file opened for writing
  (with the append flag), or one end of the pipe with a given number.
\<close>

datatype endpoint =
  Inherited nat | File_read string | File_write string bool | Pipe_read nat | Pipe_write nat

text \<open>
  A descriptor table: position \<open>n\<close> holds what descriptor \<open>n\<close> refers to, \<open>None\<close> when
  it is closed. \<^verbatim>\<open>open\<close> and \<^verbatim>\<open>pipe\<close> hand out the lowest closed descriptor.
\<close>

type_synonym fd_table = "endpoint option list"

fun lowest_free :: "fd_table \<Rightarrow> nat" where
  "lowest_free [] = 0"
| "lowest_free (None # t) = 0"
| "lowest_free (Some e # t) = Suc (lowest_free t)"

definition fd_get :: "fd_table \<Rightarrow> nat \<Rightarrow> endpoint option" where
  "fd_get t n = (if n < length t then t ! n else None)"

definition fd_set :: "fd_table \<Rightarrow> nat \<Rightarrow> endpoint option \<Rightarrow> fd_table" where
  "fd_set t n v = (t @ replicate (Suc n - length t) None)[n := v]"

text \<open>\<^verbatim>\<open>dup2(old, new)\<close> fails and changes nothing when \<open>old\<close> is closed.\<close>

definition dup2 :: "fd_table \<Rightarrow> nat \<Rightarrow> nat \<Rightarrow> fd_table" where
  "dup2 t old new = (case fd_get t old of None \<Rightarrow> t | Some e \<Rightarrow> fd_set t new (Some e))"

definition close_fd :: "fd_table \<Rightarrow> nat \<Rightarrow> fd_table" where
  "close_fd t n = fd_set t n None"

text \<open>
  \<^verbatim>\<open>for (int i = 3; i < sysconf(_SC_OPEN_MAX); i++) close(i);\<close> Every descriptor is
  below \<^verbatim>\<open>_SC_OPEN_MAX\<close>, so descriptors 0, 1 and 2 are what is left.
\<close>

definition close_from_3 :: "fd_table \<Rightarrow> fd_table" where
  "close_from_3 t = take 3 t"

text \<open>
  The operating system's answers that the code cannot know: whether a path can be
  opened for reading, whether it can be opened (created) for writing, and whether the
  \<^verbatim>\<open>pipe\<close> call made for stage \<open>i\<close> succeeds.
\<close>

record env =
  can_read :: "string \<Rightarrow> bool"
  can_write :: "string \<Rightarrow> bool"
  pipe_ok :: "nat \<Rightarrow> bool"

text \<open>
  A child ends in one of two ways before it runs a program: it reaches
  \<^verbatim>\<open>execvp\<close> with an argument vector and a descriptor table, or it leaves with
  \<^verbatim>\<open>exit(EXIT_FAILURE)\<close> after a failed \<^verbatim>\<open>open\<close>. With its end the model keeps the
  \<^verbatim>\<open>open\<close> calls of the child that succeeded, in their order: \<open>File_read f\<close> is
  \<^verbatim>\<open>open(f, O_RDONLY)\<close>, and \<open>File_write f a\<close> is \<^verbatim>\<open>open(f, O_WRONLY | O_CREAT | O_APPEND, 0644)\<close>
  when \<open>a\<close> holds, \<^verbatim>\<open>open(f, O_WRONLY | O_CREAT | O_TRUNC, 0644)\<close> when it does not.
\<close>

datatype child_end = Exec_image "string list" fd_table | Exit_failure

record child =
  ending :: child_end
  opened :: "endpoint list"

text \<open>
  What a successful \<^verbatim>\<open>open\<close> does to the files, a path being mapped to the contents of
  the file there, if there is one: with \<^verbatim>\<open>O_WRONLY | O_CREAT | O_TRUNC\<close> the file is
  created when there is none and emptied when there is one; with \<^verbatim>\<open>O_APPEND\<close> in place
  of \<^verbatim>\<open>O_TRUNC\<close> the file is created when there is none and an existing one is left as
  it is; with \<^verbatim>\<open>O_RDONLY\<close> nothing changes. \<open>files_after\<close> is what a sequence of such
  calls makes of the files.
\<close>

type_synonym file_system = "string \<Rightarrow> string option"

definition open_effect :: "endpoint \<Rightarrow> file_system \<Rightarrow> file_system" where
  "open_effect e fs =
     (case e of
        File_write f a \<Rightarrow> if a \<and> fs f \<noteq> None then fs else fs(f \<mapsto> [])
      | _ \<Rightarrow> fs)"


text \<open>
  The child's \<^verbatim>\<open>if (cmd->input_file)\<close> and \<^verbatim>\<open>if (cmd->output_file)\<close> blocks: the
  descriptor table and the list of files opened so far, \<open>None\<close> when the \<^verbatim>\<open>open\<close>
  fails.
\<close>

definition open_as :: "fd_table \<Rightarrow> endpoint \<Rightarrow> nat \<Rightarrow> fd_table" where
  "open_as t e target =
     (let fd = lowest_free t;
          t1 = fd_set t fd (Some e)
      in close_fd (dup2 t1 fd target) fd)"

definition redirect_stdin ::
  "env \<Rightarrow> Command \<Rightarrow> fd_table \<Rightarrow> endpoint list \<Rightarrow> (fd_table \<times> endpoint list) option" where
  "redirect_stdin ev cmd t os =
     (case input_file cmd of
        None \<Rightarrow> Some (t, os)
      | Some f \<Rightarrow>
          if can_read ev f then Some (open_as t (File_read f) 0, os @ [File_read f]) else None)"

definition redirect_stdout ::
  "env \<Rightarrow> Command \<Rightarrow> fd_table \<Rightarrow> endpoint list \<Rightarrow> (fd_table \<times> endpoint list) option" where
  "redirect_stdout ev cmd t os =
     (case output_file cmd of
        None \<Rightarrow> Some (t, os)
      | Some f \<Rightarrow>
          if can_write ev f
          then Some (open_as t (File_write f (append_flag cmd)) 1,
                     os @ [File_write f (append_flag cmd)])
          else None)"

text \<open>
  The child's side of \<^verbatim>\<open>execute_command\<close>, from \<^verbatim>\<open>pid == 0\<close> to \<^verbatim>\<open>execvp\<close>. The
  \<^verbatim>\<open>PATH\<close> default is not modelled, nor is what the program does once it runs.
\<close>

definition child_run :: "env \<Rightarrow> Command \<Rightarrow> fd_table \<Rightarrow> nat \<Rightarrow> nat \<Rightarrow> child" where
  "child_run ev cmd t input_fd output_fd =
     (case redirect_stdin ev cmd t [] of
        None \<Rightarrow> \<lparr>ending = Exit_failure, opened = []\<rparr>
      | Some (t1, os1) \<Rightarrow>
          (case redirect_stdout ev cmd t1 os1 of
             None \<Rightarrow> \<lparr>ending = Exit_failure, opened = os1\<rparr>
           | Some (t2, os2) \<Rightarrow>
               (let t3 = (if input_fd \<noteq> 0 then close_fd (dup2 t2 input_fd 0) input_fd else t2);
                    t4 = (if output_fd \<noteq> 1 then close_fd (dup2 t3 output_fd 1) output_fd else t3)
                in \<lparr>ending = Exec_image (args cmd) (close_from_3 t4), opened = os2\<rparr>)))"

text \<open>
  The shell as a process: its descriptor table, the number of pipes created so far,
  its children that have not been waited for (oldest first), the children already
  reaped, and the global \<^verbatim>\<open>foreground_mode\<close>.
\<close>

record proc =
  fds :: fd_table
  next_pipe :: nat
  children :: "child list"
  reaped :: "child list"
  foreground_mode :: int

text \<open>
  \<^verbatim>\<open>execute_command\<close>: the quote stripping at its head, then \<^verbatim>\<open>fork\<close>, taken to
  succeed; the child starts with a copy of the shell's descriptor table.
\<close>

definition execute_command :: "env \<Rightarrow> Command \<Rightarrow> nat \<Rightarrow> nat \<Rightarrow> proc \<Rightarrow> proc" where
  "execute_command ev cmd input_fd output_fd p =
     p\<lparr>children := children p @
          [child_run ev (cmd\<lparr>args := map unquote (args cmd)\<rparr>) (fds p) input_fd output_fd]\<rparr>"

text \<open>A successful \<^verbatim>\<open>pipe(fd)\<close>: the pair \<open>(fd[0], fd[1])\<close> and the new state.\<close>

definition pipe_fds :: "proc \<Rightarrow> (nat \<times> nat) \<times> proc" where
  "pipe_fds p =
     (let r = lowest_free (fds p);
          t1 = fd_set (fds p) r (Some (Pipe_read (next_pipe p)));
          w = lowest_free t1;
          t2 = fd_set t1 w (Some (Pipe_write (next_pipe p)))
      in ((r, w), p\<lparr>fds := t2, next_pipe := next_pipe p + 1\<rparr>))"

definition close_in :: "proc \<Rightarrow> nat \<Rightarrow> proc" where
  "close_in p n = p\<lparr>fds := close_fd (fds p) n\<rparr>"

text \<open>
  The loop \<^verbatim>\<open>for (int i = 0; i < cmd_count; i++)\<close> of \<^verbatim>\<open>execute_pipeline\<close>, from
  index \<open>i\<close> on. The result is \<open>False\<close> with the state reached when a failed \<^verbatim>\<open>pipe\<close>
  made the function return, \<open>True\<close> when the loop ran to its end.
\<close>

function spawn_stages :: "env \<Rightarrow> Command list \<Rightarrow> nat \<Rightarrow> nat \<Rightarrow> nat \<Rightarrow> proc \<Rightarrow> bool \<times> proc" where
  "spawn_stages ev pipeline cmd_count i input_fd p =
     (if i < cmd_count then
        (if i < cmd_count - 1 then
           (if pipe_ok ev i then
              (let rw = fst (pipe_fds p);
                   p1 = snd (pipe_fds p);
                   p2 = execute_command ev (pipeline ! i) input_fd (snd rw) p1;
                   p3 = (if input_fd \<noteq> 0 then close_in p2 input_fd else p2);
                   p4 = close_in p3 (snd rw)
               in spawn_stages ev pipeline cmd_count (i + 1) (fst rw) p4)
            else (False, p))
         else
           (let p2 = execute_command ev (pipeline ! i) input_fd 1 p;
                p3 = (if input_fd \<noteq> 0 then close_in p2 input_fd else p2)
            in spawn_stages ev pipeline cmd_count (i + 1) input_fd p3))
      else (True, p))"
  by pat_completeness auto
termination
  by (relation "measure (\<lambda>(ev, pipeline, cmd_count, i, input_fd, p). cmd_count - i)") auto

text \<open>
  \<^verbatim>\<open>while (waitpid(-1, &status, 0) > 0);\<close> Each call reaps one child of the shell,
  whichever pipeline started it, and the loop ends when none is left. The order in
  which children exit, and the time the calls block, are not modelled.
\<close>

fun wait_loop :: "child list \<Rightarrow> child list \<Rightarrow> child list" where
  "wait_loop [] done = done"
| "wait_loop (c # cs) done = wait_loop cs (done @ [c])"

definition wait_all :: "proc \<Rightarrow> proc" where
  "wait_all p = p\<lparr>children := [], reaped := wait_loop (children p) (reaped p)\<rparr>"

text \<open>
  \<^verbatim>\<open>execute_pipeline(pipeline, cmd_count)\<close> with \<open>cmd_count = length pipeline\<close>. With no
  stage at all the read of \<^verbatim>\<open>pipeline[cmd_count-1]\<close> is outside the array; \<^verbatim>\<open>main\<close>
  never makes that call.
\<close>

definition execute_pipeline :: "env \<Rightarrow> Command list \<Rightarrow> proc \<Rightarrow> fault + proc" where
  "execute_pipeline ev pipeline p =
     (let cmd_count = length pipeline
      in case spawn_stages ev pipeline cmd_count 0 0 p of
           (False, p1) \<Rightarrow> Inr p1
         | (True, p1) \<Rightarrow>
             if cmd_count = 0 then Inl Stage_out_of_bounds
             else if \<not> background (pipeline ! (cmd_count - 1))
             then Inr ((wait_all p1)\<lparr>foreground_mode := 1\<rparr>)
             else Inr (p1\<lparr>foreground_mode := 0\<rparr>))"

text \<open>A shell with its three standard descriptors and no children, for examples.\<close>

definition fresh_proc :: proc where
  "fresh_proc =
     \<lparr>fds = [Some (Inherited 0), Some (Inherited 1), Some (Inherited 2)], next_pipe = 0,
      children = [], reaped = [], foreground_mode = 1\<rparr>"

definition lenient_env :: env where
  "lenient_env = \<lparr>can_read = (\<lambda>f. True), can_write = (\<lambda>f. True), pipe_ok = (\<lambda>i. True)\<rparr>"




definition open_fails :: "env \<Rightarrow> Command \<Rightarrow> bool" where
  "open_fails ev cmd =
     ((case input_file cmd of None \<Rightarrow> False | Some f \<Rightarrow> \<not> can_read ev f) \<or>
      (case output_file cmd of None \<Rightarrow> False | Some f \<Rightarrow> \<not> can_write ev f))"



definition stage_files :: "Command \<Rightarrow> endpoint list" where
  "stage_files cmd =
     (case input_file cmd of None \<Rightarrow> [] | Some f \<Rightarrow> [File_read f]) @
     (case output_file cmd of None \<Rightarrow> [] | Some f \<Rightarrow> [File_write f (append_flag cmd)])"


text \<open>
  Pipelines for examples: \<^verbatim>\<open>sleep 5 & | cat\<close>, whose first stage alone carries a
  background flag; \<^verbatim>\<open>ls > skip | wc < other\<close>, whose first stage names an output
  file and whose last stage names an input file, both at the pipe between them; and
  \<^verbatim>\<open>ls | wc < missing\<close>, run where \<open>missing\<close> cannot be opened. \<open>busy_proc\<close> is a shell
  that still has one child of an earlier background pipeline, and \<open>sample_files\<close> has
  the two files \<open>skip\<close> and \<open>other\<close>, neither of them empty.
\<close>

definition flagged_first :: "Command list" where
  "flagged_first = parse_pipeline ''sleep 5 & | cat''"


definition busy_proc :: proc where
  "busy_proc =
     fresh_proc\<lparr>children :=
       [\<lparr>ending = Exec_image [''sleep'', ''60''] (fds fresh_proc), opened = []\<rparr>]\<rparr>"





section \<open>History store: properties\<close>

declare shift_history.simps [simp del]

lemma shift_history_length [simp]: "length (shift_history i h) = length h"
  by (induction i h rule: shift_history.induct) (subst shift_history.simps, simp)


lemma shift_history_eq:
  "length h = MAX_HISTORY \<Longrightarrow> i \<le> MAX_HISTORY - 1 \<Longrightarrow>
   shift_history i h = take i h @ drop (Suc i) h @ [h ! (MAX_HISTORY - 1)]"
proof (induction i h rule: shift_history.induct)
  case (1 i h)
  show ?case
  proof (cases "i < MAX_HISTORY - 1")
    case True
    have len: "length (h[i := h ! (i + 1)]) = MAX_HISTORY" using 1 by simp
    have step: "shift_history i h = shift_history (i + 1) (h[i := h ! (i + 1)])"
      using True by (subst shift_history.simps) simp
    have ih: "shift_history (i + 1) (h[i := h ! (i + 1)]) =
          take (i + 1) (h[i := h ! (i + 1)]) @ drop (Suc (i + 1)) (h[i := h ! (i + 1)]) @
          [(h[i := h ! (i + 1)]) ! (MAX_HISTORY - 1)]"
      using "1.IH"[OF True len] True by simp
    have a: "take (i + 1) (h[i := h ! (i + 1)]) = take i h @ [h ! (i + 1)]"
      using True 1 by (simp add: take_Suc_conv_app_nth)
    have b: "drop (Suc (i + 1)) (h[i := h ! (i + 1)]) = drop (Suc (Suc i)) h" by simp
    have c: "(h[i := h ! (i + 1)]) ! (MAX_HISTORY - 1) = h ! (MAX_HISTORY - 1)"
      using True by simp
    have d: "drop (Suc i) h = h ! (i + 1) # drop (Suc (Suc i)) h"
      using True 1 by (simp add: Cons_nth_drop_Suc)
    show ?thesis unfolding step ih a b c d by simp
  next
    case False
    with 1 have "i = MAX_HISTORY - 1" by simp
    moreover have "take (Suc 99) h = take 99 h @ [h ! 99]"
      using 1 by (intro take_Suc_conv_app_nth) (simp add: MAX_HISTORY_def)
    ultimately show ?thesis using 1 False
      by (subst shift_history.simps) (simp add: MAX_HISTORY_def)
  qed
qed

lemma shift_history_0:
  "length h = MAX_HISTORY \<Longrightarrow> shift_history 0 h = tl h @ [last h]"
  using shift_history_eq[of h 0]
  by (cases h) (auto simp: MAX_HISTORY_def last_conv_nth drop_Suc)

lemma int_wrap_id: "- 2147483648 \<le> x \<Longrightarrow> x \<le> INT_MAX \<Longrightarrow> int_wrap x = x"
  by (simp add: int_wrap_def INT_MAX_def)

lemma history_count_wraps:
  "history_count hs = INT_MAX \<Longrightarrow> cmd \<noteq> [] \<Longrightarrow>
   history_count (add_to_history hs cmd) = - 2147483648"
  by (simp add: add_to_history_def Let_def int_wrap_def INT_MAX_def)

lemma add_to_history_step:
  assumes h: "history hs = map Some (drop (length ls - MAX_HISTORY) ls) @ replicate (MAX_HISTORY - length ls) None"
    and c: "history_count hs = int (length ls)" and l: "l \<noteq> []"
  shows "history (add_to_history hs l) =
           map Some (drop (length (ls @ [l]) - MAX_HISTORY) (ls @ [l])) @
           replicate (MAX_HISTORY - length (ls @ [l])) None"
proof (cases "length ls < MAX_HISTORY")
  case True
  then have "history hs = map Some ls @ replicate (MAX_HISTORY - length ls) None"
    using h by simp
  moreover have "replicate (MAX_HISTORY - length ls) None =
      (None :: string option) # replicate (MAX_HISTORY - Suc (length ls)) None"
    using True by (metis Suc_diff_Suc replicate_Suc)
  ultimately have "(history hs)[length ls := Some l] =
      map Some (ls @ [l]) @ replicate (MAX_HISTORY - Suc (length ls)) None"
    by (simp add: list_update_append)
  then show ?thesis using True c l by (simp add: add_to_history_def)
next
  case False
  let ?xs = "drop (length ls - MAX_HISTORY) ls"
  have len: "length ?xs = MAX_HISTORY" using False by simp
  have hh: "history hs = map Some ?xs" using h False by simp
  then have lh: "length (history hs) = MAX_HISTORY" using len by simp
  have ne: "?xs \<noteq> []" using len by (auto simp: MAX_HISTORY_def)
  have "(shift_history 0 (history hs))[MAX_HISTORY - 1 := Some l] =
        (tl (history hs) @ [last (history hs)])[MAX_HISTORY - 1 := Some l]"
    using shift_history_0[OF lh] by simp
  also have "\<dots> = tl (history hs) @ [Some l]"
    using lh by (simp add: list_update_append MAX_HISTORY_def)
  also have "\<dots> = map Some (tl ?xs @ [l])" using hh by (simp add: map_tl)
  also have "tl ?xs = drop (Suc (length ls) - MAX_HISTORY) ls"
    using False by (simp add: drop_Suc tl_drop Suc_diff_le)
  finally have "(shift_history 0 (history hs))[MAX_HISTORY - 1 := Some l] =
      map Some (drop (Suc (length ls) - MAX_HISTORY) ls @ [l])" .
  moreover have "Suc 0 - MAX_HISTORY = 0" by (simp add: MAX_HISTORY_def)
  ultimately show ?thesis using False c l by (simp add: add_to_history_def)
qed

lemma submit_all_init:
  assumes "\<forall>l \<in> set ls. l \<noteq> []" and "int (length ls) \<le> INT_MAX"
  shows "history (submit_all init_history ls) =
           map Some (drop (length ls - MAX_HISTORY) ls) @ replicate (MAX_HISTORY - length ls) None
         \<and> history_count (submit_all init_history ls) = int (length ls)"
  using assms
proof (induction ls rule: rev_induct)
  case Nil
  then show ?case by (simp add: submit_all_def init_history_def)
next
  case (snoc l ls)
  then have ih: "history (submit_all init_history ls) =
           map Some (drop (length ls - MAX_HISTORY) ls) @ replicate (MAX_HISTORY - length ls) None"
     and c: "history_count (submit_all init_history ls) = int (length ls)"
     and l: "l \<noteq> []" by simp_all
  have s: "submit_all init_history (ls @ [l]) = add_to_history (submit_all init_history ls) l"
    by (simp add: submit_all_def)
  have "int_wrap (int (length ls) + 1) = int (length ls) + 1"
    using snoc.prems(2) by (intro int_wrap_id) simp_all
  then have "history_count (add_to_history (submit_all init_history ls) l) = int (length (ls @ [l]))"
    using c l by (simp add: add_to_history_def Let_def)
  then show ?case unfolding s using add_to_history_step[OF ih c l] by simp
qed




lemma sample_lines_nonempty: "\<forall>l \<in> set (sample_lines n). l \<noteq> []"
  by (simp add: sample_lines_def sample_line_def)

lemma sample_lines_length [simp]: "length (sample_lines n) = n"
  by (simp add: sample_lines_def)

lemma sample_lines_distinct: "distinct (sample_lines n)"
  by (auto simp: sample_lines_def sample_line_def distinct_map inj_on_def dest!: arg_cong[where f=length])





lemma store_101:
  "history_count (submit_all init_history (sample_lines 101)) = 101"
  "history (submit_all init_history (sample_lines 101)) = map Some (drop 1 (sample_lines 101))"
  using submit_all_init[OF sample_lines_nonempty[of 101]]
  by (simp_all add: MAX_HISTORY_def INT_MAX_def)



section \<open>Line editor: buffers\<close>


lemma wf_buffer_nth:
  "wf_buffer buf n \<longleftrightarrow>
     length buf = MAX_CMD_LEN \<and> n < MAX_CMD_LEN \<and> (\<forall>i<n. buf ! i \<noteq> NUL) \<and>
     (\<forall>i. n \<le> i \<and> i < MAX_CMD_LEN \<longrightarrow> buf ! i = NUL)"
proof -
  have a: "NUL \<notin> set (take n buf) \<longleftrightarrow> (\<forall>i<n. buf ! i \<noteq> NUL)"
    if "length buf = MAX_CMD_LEN" "n < MAX_CMD_LEN"
  proof -
    have "set (take n buf) = (!) buf ` {0..<n}"
      using that by (simp add: nth_image)
    then show ?thesis by (force simp: image_iff)
  qed
  have b: "drop n buf = replicate (MAX_CMD_LEN - n) NUL \<longleftrightarrow>
      (\<forall>i. n \<le> i \<and> i < MAX_CMD_LEN \<longrightarrow> buf ! i = NUL)"
    if l: "length buf = MAX_CMD_LEN" and "n < MAX_CMD_LEN"
  proof -
    have "drop n buf = replicate (MAX_CMD_LEN - n) NUL \<longleftrightarrow>
        (\<forall>i<MAX_CMD_LEN - n. buf ! (n + i) = NUL)"
      using that by (simp add: list_eq_iff_nth_eq)
    also have "\<dots> \<longleftrightarrow> (\<forall>i. n \<le> i \<and> i < MAX_CMD_LEN \<longrightarrow> buf ! i = NUL)"
    proof (intro iffI allI impI)
      fix i assume h: "\<forall>i<MAX_CMD_LEN - n. buf ! (n + i) = NUL" and i: "n \<le> i \<and> i < MAX_CMD_LEN"
      then have "i - n < MAX_CMD_LEN - n" by linarith
      with h have "buf ! (n + (i - n)) = NUL" by blast
      then show "buf ! i = NUL" using i by simp
    next
      fix i assume h: "\<forall>i. n \<le> i \<and> i < MAX_CMD_LEN \<longrightarrow> buf ! i = NUL" and "i < MAX_CMD_LEN - n"
      then show "buf ! (n + i) = NUL" by simp
    qed
    finally show ?thesis .
  qed
  show ?thesis unfolding wf_buffer_def using a b by blast
qed

lemma wf_buffer_c_str: 
  assumes w: "wf_buffer buf n" shows "c_str buf = take n buf"
proof -
  have "buf = take n buf @ drop n buf" by simp
  moreover have "MAX_CMD_LEN - n = Suc (MAX_CMD_LEN - Suc n)"
    using w unfolding wf_buffer_def by linarith
  then have "drop n buf = NUL # replicate (MAX_CMD_LEN - Suc n) NUL"
    using w by (simp add: wf_buffer_def)
  ultimately have e: "buf = take n buf @ NUL # replicate (MAX_CMD_LEN - Suc n) NUL"
    by simp
  have "takeWhile (\<lambda>c. c \<noteq> NUL) (take n buf @ NUL # replicate (MAX_CMD_LEN - Suc n) NUL) = take n buf"
    using w by (intro takeWhile_tail[THEN trans] ) (auto simp: wf_buffer_def takeWhile_eq_all_conv)
  then show ?thesis unfolding c_str_def using e by metis
qed

lemma wf_buffer_strlen: "wf_buffer buf n \<Longrightarrow> strlen buf = Inr n"
proof -
  assume w: "wf_buffer buf n"
  then have "buf ! n = NUL" and "n < length buf" by (simp_all add: wf_buffer_nth)
  then have "NUL \<in> set buf" by (metis nth_mem)
  then show ?thesis using w wf_buffer_c_str[OF w] by (simp add: strlen_def wf_buffer_def)
qed

lemma wf_buffer_unique: "wf_buffer buf n \<Longrightarrow> wf_buffer buf m \<Longrightarrow> n = m"
  using wf_buffer_strlen[of buf n] wf_buffer_strlen[of buf m] by simp

lemma wf_buffer_pad:
  assumes "NUL \<notin> set s" "length s < MAX_CMD_LEN"
  shows "wf_buffer (s @ replicate (MAX_CMD_LEN - length s) NUL) (length s)"
  using assms by (simp add: wf_buffer_def)

lemma wf_buffer_eq_pad:
  assumes "wf_buffer buf n"
  shows "buf = take n buf @ replicate (MAX_CMD_LEN - n) NUL"
  using assms by (metis append_take_drop_id wf_buffer_def)

lemma strncpy_pad:
  assumes "length dst = MAX_CMD_LEN" "length s < MAX_CMD_LEN"
  shows "strncpy dst s MAX_CMD_LEN = Inr (s @ replicate (MAX_CMD_LEN - length s) NUL)"
  using assms by (simp add: strncpy_def)



lemma moved_nth:
  assumes "d + k \<le> length buf" "s + k \<le> length buf" "i < length buf"
  shows "(take d buf @ take k (drop s buf) @ drop (d + k) buf) ! i =
         (if i < d then buf ! i else if i < d + k then buf ! (s + (i - d)) else buf ! i)"
proof -
  have a: "length (take d buf) = d" and b: "length (take k (drop s buf)) = k"
    using assms by simp_all
  show ?thesis
  proof (cases "i < d")
    case True
    then show ?thesis using assms by (simp add: nth_append)
  next
    case False
    note nd = this
    show ?thesis
    proof (cases "i < d + k")
      case True
      then have "i - d < k" using nd by simp
      then show ?thesis using nd True assms by (simp add: nth_append min_absorb2)
    next
      case False
      then have e: "d + k + (i - d - k) = i" and f: "\<not> i - d < k" using nd by simp_all
      have "(take d buf @ take k (drop s buf) @ drop (d + k) buf) ! i =
            (take k (drop s buf) @ drop (d + k) buf) ! (i - d)"
        using nd a by (simp add: nth_append)
      also have "\<dots> = drop (d + k) buf ! (i - d - k)"
        using f b by (simp add: nth_append)
      also have "\<dots> = buf ! i" using e assms by simp
      finally show ?thesis using nd False by simp
    qed
  qed
qed

lemma moved_length:
  assumes "d + k \<le> length buf" "s + k \<le> length buf"
  shows "length (take d buf @ take k (drop s buf) @ drop (d + k) buf) = length buf"
  using assms by simp

lemma insert_buf:
  assumes w: "wf_buffer buf n" and p: "p \<le> n" and n: "n + 1 < MAX_CMD_LEN" and c: "c \<noteq> NUL"
  shows "wf_buffer ((take (p + 1) buf @ take (n - p + 1) (drop p buf) @ drop (p + 1 + (n - p + 1)) buf)
                      [p := c, n + 1 := NUL]) (n + 1)"
proof -
  let ?m = "take (p + 1) buf @ take (n - p + 1) (drop p buf) @ drop (p + 1 + (n - p + 1)) buf"
  have l: "length buf = MAX_CMD_LEN" using w by (simp add: wf_buffer_def)
  have b1: "p + 1 + (n - p + 1) \<le> length buf" and b2: "p + (n - p + 1) \<le> length buf"
    using l p n by simp_all
  have ml: "length ?m = MAX_CMD_LEN" using moved_length[OF b1 b2] l by simp
  have nz: "\<And>i. i < n \<Longrightarrow> buf ! i \<noteq> NUL" and z: "\<And>i. n \<le> i \<Longrightarrow> i < MAX_CMD_LEN \<Longrightarrow> buf ! i = NUL"
    using w by (simp_all add: wf_buffer_nth)
  have mn: "\<And>i. i < MAX_CMD_LEN \<Longrightarrow> ?m ! i =
         (if i < p + 1 then buf ! i else if i < p + 1 + (n - p + 1) then buf ! (p + (i - (p + 1))) else buf ! i)"
    using moved_nth[OF b1 b2] l by simp
  show ?thesis
    unfolding wf_buffer_nth
  proof (intro conjI allI impI)
    show "length (?m[p := c, n + 1 := NUL]) = MAX_CMD_LEN" using ml by simp
    show "n + 1 < MAX_CMD_LEN" by (rule n)
  next
    fix i assume i: "i < n + 1"
    then have "i < MAX_CMD_LEN" using n by simp
    then show "?m[p := c, n + 1 := NUL] ! i \<noteq> NUL"
      using i p n c ml mn[of i] nz[of i] nz[of "i - 1"]
      by (auto simp: nth_list_update)
  next
    fix i assume i: "n + 1 \<le> i \<and> i < MAX_CMD_LEN"
    then show "?m[p := c, n + 1 := NUL] ! i = NUL"
      using p n ml mn[of i] z[of i]
      by (auto simp: nth_list_update)
  qed
qed

lemma delete_buf:
  assumes w: "wf_buffer buf n" and p: "p \<le> n" and p0: "0 < p"
  shows "wf_buffer ((take (p - 1) buf @ take (n - p + 1) (drop p buf) @ drop (p - 1 + (n - p + 1)) buf)
                      [n - 1 := NUL]) (n - 1)"
proof -
  let ?m = "take (p - 1) buf @ take (n - p + 1) (drop p buf) @ drop (p - 1 + (n - p + 1)) buf"
  have l: "length buf = MAX_CMD_LEN" and n: "n < MAX_CMD_LEN" using w by (simp_all add: wf_buffer_def)
  have b1: "p - 1 + (n - p + 1) \<le> length buf" and b2: "p + (n - p + 1) \<le> length buf"
    using l p n by simp_all
  have ml: "length ?m = MAX_CMD_LEN" using moved_length[OF b1 b2] l by simp
  have nz: "\<And>i. i < n \<Longrightarrow> buf ! i \<noteq> NUL" and z: "\<And>i. n \<le> i \<Longrightarrow> i < MAX_CMD_LEN \<Longrightarrow> buf ! i = NUL"
    using w by (simp_all add: wf_buffer_nth)
  have mn: "\<And>i. i < MAX_CMD_LEN \<Longrightarrow> ?m ! i =
         (if i < p - 1 then buf ! i else if i < p - 1 + (n - p + 1) then buf ! (p + (i - (p - 1))) else buf ! i)"
    using moved_nth[OF b1 b2] l by simp
  show ?thesis
    unfolding wf_buffer_nth
  proof (intro conjI allI impI)
    show "length (?m[n - 1 := NUL]) = MAX_CMD_LEN" using ml by simp
    show "n - 1 < MAX_CMD_LEN" using n by simp
  next
    fix i assume i: "i < n - 1"
    then have "i < MAX_CMD_LEN" using n by simp
    then show "?m[n - 1 := NUL] ! i \<noteq> NUL"
      using i p p0 n ml mn[of i] nz[of i] nz[of "i + 1"]
      by (auto simp: nth_list_update)
  next
    fix i assume i: "n - 1 \<le> i \<and> i < MAX_CMD_LEN"
    then show "?m[n - 1 := NUL] ! i = NUL"
      using p p0 n ml mn[of i] z[of i]
      by (auto simp: nth_list_update)
  qed
qed



lemma insert_char_wf:
  assumes w: "wf_editor e" and c: "c \<noteq> NUL" and room: "len e < int MAX_CMD_LEN - 1"
  shows "\<exists>e'. insert_char e c = Inr e' \<and> wf_editor e' \<and> len e' = len e + 1 \<and> pos e' = pos e + 1
             \<and> history_index e' = history_index e \<and> saved_line e' = saved_line e"
proof -
  define p n where "p = nat (pos e)" and "n = nat (len e)"
  have pe: "pos e = int p" and ne: "len e = int n" and pn: "p \<le> n" and n1: "n + 1 < MAX_CMD_LEN"
    and wb: "wf_buffer (line e) n" and l: "length (line e) = MAX_CMD_LEN"
    using w room by (auto simp: wf_editor_def p_def n_def wf_buffer_def)
  let ?m = "take (p + 1) (line e) @ take (n - p + 1) (drop p (line e)) @ drop (p + 1 + (n - p + 1)) (line e)"
  have c1: "nat (int p + 1) = p + 1" and c2: "nat (int n - int p + 1) = n - p + 1"
    and c3: "nat (int p + 1 + (int n - int p + 1)) = p + 1 + (n - p + 1)"
    and c4: "nat (int n + 1) = n + 1"
    using pn by linarith+
  have ml: "length ?m = MAX_CMD_LEN" using l pn n1 by simp
  have mm: "memmove (line e) (pos e + 1) (pos e) (len e - pos e + 1) = Inr ?m"
    unfolding memmove_def pe ne c1 c2 c3 using l pn n1 by simp
  have p1: "poke ?m (pos e) c = Inr (?m[p := c])"
    unfolding poke_def pe using ml pn n1 by simp
  have p2: "poke (?m[p := c]) (len e + 1) NUL = Inr (?m[p := c, n + 1 := NUL])"
    unfolding poke_def ne c4 using ml pn n1 by simp
  have r: "insert_char e c = Inr (e\<lparr>line := ?m[p := c, n + 1 := NUL], len := len e + 1, pos := pos e + 1\<rparr>)"
    unfolding insert_char_def using room by (simp only: if_True mm and_then_def sum.case p1 p2)
  have "wf_buffer (?m[p := c, n + 1 := NUL]) (n + 1)"
    by (rule insert_buf[OF wb pn n1 c])
  then have "wf_editor (e\<lparr>line := ?m[p := c, n + 1 := NUL], len := len e + 1, pos := pos e + 1\<rparr>)"
    using w room by (simp add: wf_editor_def ne c4)
  then show ?thesis using r by simp
qed

lemma insert_char_full: "\<not> len e < int MAX_CMD_LEN - 1 \<Longrightarrow> insert_char e c = Inr e"
  by (simp add: insert_char_def)

lemma backspace_wf:
  assumes w: "wf_editor e"
  shows "\<exists>e'. backspace e = Inr e' \<and> wf_editor e' \<and> history_index e' = history_index e
            \<and> saved_line e' = saved_line e"
proof (cases "pos e > 0 \<and> len e > 0")
  case False
  then show ?thesis using w by (auto simp: backspace_def)
next
  case True
  define p n where "p = nat (pos e)" and "n = nat (len e)"
  have pe: "pos e = int p" and ne: "len e = int n" and pn: "p \<le> n" and n1: "n < MAX_CMD_LEN"
    and wb: "wf_buffer (line e) n" and l: "length (line e) = MAX_CMD_LEN" and p0: "0 < p"
    using w True by (auto simp: wf_editor_def p_def n_def wf_buffer_def)
  let ?m = "take (p - 1) (line e) @ take (n - p + 1) (drop p (line e)) @ drop (p - 1 + (n - p + 1)) (line e)"
  have c1: "nat (int p - 1) = p - 1" and c2: "nat (int n - int p + 1) = n - p + 1"
    and c3: "nat (int p - 1 + (int n - int p + 1)) = p - 1 + (n - p + 1)"
    and c4: "nat (int n - 1) = n - 1"
    using pn p0 by linarith+
  have ml: "length ?m = MAX_CMD_LEN" using l pn n1 p0 by simp
  have mm: "memmove (line e) (pos e - 1) (pos e) (len e - pos e + 1) = Inr ?m"
    unfolding memmove_def pe ne c1 c2 c3 using l pn n1 p0 by simp
  have p2: "poke ?m (len e - 1) NUL = Inr (?m[n - 1 := NUL])"
    unfolding poke_def ne c4 using ml pn n1 p0 by simp
  have r: "backspace e = Inr (e\<lparr>line := ?m[n - 1 := NUL], len := len e - 1, pos := pos e - 1\<rparr>)"
    unfolding backspace_def using True by (simp only: if_True mm and_then_def sum.case p2 simp_thms)
  have "wf_buffer (?m[n - 1 := NUL]) (n - 1)"
    by (rule delete_buf[OF wb pn p0])
  then have "wf_editor (e\<lparr>line := ?m[n - 1 := NUL], len := len e - 1, pos := pos e - 1\<rparr>)"
    using w True by (simp add: wf_editor_def ne c4)
  then show ?thesis using r by simp
qed

lemma load_line_wf:
  assumes w: "wf_editor e" and s: "NUL \<notin> set s" "length s < MAX_CMD_LEN"
  shows "load_line e s =
          Inr (e\<lparr>line := s @ replicate (MAX_CMD_LEN - length s) NUL, len := int (length s), pos := int (length s)\<rparr>)"
    and "wf_editor (e\<lparr>line := s @ replicate (MAX_CMD_LEN - length s) NUL, len := int (length s), pos := int (length s)\<rparr>)"
proof -
  have l: "length (line e) = MAX_CMD_LEN" using w by (simp add: wf_editor_def wf_buffer_def)
  have wb: "wf_buffer (s @ replicate (MAX_CMD_LEN - length s) NUL) (length s)"
    by (rule wf_buffer_pad[OF s])
  show "load_line e s =
          Inr (e\<lparr>line := s @ replicate (MAX_CMD_LEN - length s) NUL, len := int (length s), pos := int (length s)\<rparr>)"
    by (simp add: load_line_def strncpy_pad[OF l s(2)] wf_buffer_strlen[OF wb] and_then_def)
  show "wf_editor (e\<lparr>line := s @ replicate (MAX_CMD_LEN - length s) NUL, len := int (length s), pos := int (length s)\<rparr>)"
    using w wb s by (simp add: wf_editor_def)
qed



lemma history_at_wf:
  assumes w: "wf_store hs" and i: "0 \<le> idx" "idx < history_count hs" "idx < int MAX_HISTORY"
  shows "\<exists>s. history_at hs idx = Inr s \<and> NUL \<notin> set s \<and> length s < MAX_CMD_LEN"
proof -
  let ?t = "take (nat (history_count hs)) (history hs)"
  have "nat idx < length ?t" using w i by (simp add: wf_store_def)
  then have "wf_entry (?t ! nat idx)" using w by (simp add: wf_store_def list_all_length)
  moreover have "?t ! nat idx = history hs ! nat idx" using i by simp
  ultimately have "wf_entry (history hs ! nat idx)" by simp
  then show ?thesis using i by (auto simp: history_at_def wf_entry_def split: option.splits)
qed

lemma history_at_fault:
  "history_at hs idx = Inl f \<Longrightarrow> wf_store hs \<Longrightarrow> 0 \<le> idx \<Longrightarrow> idx < history_count hs \<Longrightarrow>
   f = History_out_of_bounds \<and> int MAX_HISTORY < history_count hs"
  using history_at_wf[of hs idx] by (cases "idx < int MAX_HISTORY") (auto simp: history_at_def)

lemma save_line:
  assumes w: "wf_editor e"
  shows "strncpy (saved_line e) (c_str (line e)) MAX_CMD_LEN = Inr (line e)"
proof -
  have wb: "wf_buffer (line e) (nat (len e))" and l: "length (saved_line e) = MAX_CMD_LEN"
    using w by (simp_all add: wf_editor_def wf_buffer_def)
  have c: "c_str (line e) = take (nat (len e)) (line e)" by (rule wf_buffer_c_str[OF wb])
  have n: "length (c_str (line e)) = nat (len e)" "length (c_str (line e)) < MAX_CMD_LEN"
    using wb unfolding c by (simp_all add: wf_buffer_def)
  have "c_str (line e) @ replicate (MAX_CMD_LEN - length (c_str (line e))) NUL = line e"
    unfolding n(1) unfolding c using wf_buffer_eq_pad[OF wb] by (rule sym)
  then show ?thesis unfolding strncpy_pad[OF l n(2)] by simp
qed

lemma wf_editor_saved:
  assumes w: "wf_editor e"
  shows "wf_editor (e\<lparr>saved_line := line e\<rparr>)"
proof -
  have wb: "wf_buffer (line e) (nat (len e))" using w by (simp add: wf_editor_def)
  have "length (c_str (line e)) = nat (len e)"
    using wf_buffer_strlen[OF wb] wb by (simp add: strlen_def split: if_splits)
  then show ?thesis using w by (simp add: wf_editor_def)
qed

lemma load_saved:
  assumes w: "wf_editor e"
  shows "NUL \<notin> set (c_str (saved_line e))" "length (c_str (saved_line e)) < MAX_CMD_LEN"
    "c_str (saved_line e) @ replicate (MAX_CMD_LEN - length (c_str (saved_line e))) NUL = saved_line e"
proof -
  have wb: "wf_buffer (saved_line e) (length (c_str (saved_line e)))" using w by (simp add: wf_editor_def)
  have c: "c_str (saved_line e) = take (length (c_str (saved_line e))) (saved_line e)"
    by (rule wf_buffer_c_str[OF wb])
  show "NUL \<notin> set (c_str (saved_line e))" using wb c by (metis wf_buffer_def)
  show "length (c_str (saved_line e)) < MAX_CMD_LEN" using wb by (simp add: wf_buffer_def)
  show "c_str (saved_line e) @ replicate (MAX_CMD_LEN - length (c_str (saved_line e))) NUL = saved_line e"
    using wf_buffer_eq_pad[OF wb] c by metis
qed

lemma recall_loaded:
  assumes ws: "wf_store hs" and w: "wf_editor e" and c: "recall_idx hs e < history_count hs"
  shows "(\<exists>e'. and_then (history_at hs (recall_idx hs e)) (load_line e) = Inr e' \<and> wf_editor e'
             \<and> history_index e' = history_index e \<and> saved_line e' = saved_line e)
         \<or> (and_then (history_at hs (recall_idx hs e)) (load_line e) = Inl History_out_of_bounds
             \<and> int MAX_HISTORY < history_count hs)"
proof (cases "recall_idx hs e < int MAX_HISTORY")
  case True
  have "0 \<le> recall_idx hs e" by (simp add: recall_idx_def Let_def)
  from history_at_wf[OF ws this c True]
  obtain s where s: "history_at hs (recall_idx hs e) = Inr s" "NUL \<notin> set s" "length s < MAX_CMD_LEN"
    by blast
  show ?thesis using load_line_wf[OF w s(2,3)] s(1) by (simp add: and_then_def)
next
  case False
  then show ?thesis using c by (simp add: history_at_def and_then_def recall_idx_def Let_def)
qed

lemma arrow_up_cases:
  assumes ws: "wf_store hs" and w: "wf_editor e"
  shows "(\<exists>e'. arrow_up hs e = Inr e' \<and> wf_editor e')
         \<or> (arrow_up hs e = Inl History_out_of_bounds \<and> int MAX_HISTORY < history_count hs)"
proof (cases "history_index e < history_count hs")
  case False
  then show ?thesis using w by (simp add: arrow_up_def)
next
  case True
  define e2 where "e2 = e\<lparr>saved_line := (if history_index e = 0 then line e else saved_line e),
                             history_index := history_index e + 1\<rparr>"
  have w1: "wf_editor (e\<lparr>saved_line := (if history_index e = 0 then line e else saved_line e)\<rparr>)"
    using w wf_editor_saved[OF w] by simp
  then have w2: "wf_editor e2" by (simp add: e2_def wf_editor_def)
  have i: "recall_idx hs e2 < history_count hs"
    using True w by (simp add: recall_idx_def e2_def Let_def wf_editor_def)
  have u: "arrow_up hs e = and_then (history_at hs (recall_idx hs e2)) (load_line e2)"
  proof (cases "history_index e = 0")
    case z: True
    then have e2: "e2 = e\<lparr>saved_line := line e, history_index := 1\<rparr>" by (simp add: e2_def)
    show ?thesis using True i z unfolding e2
      by (simp add: arrow_up_def save_line[OF w] and_then_def Let_def)
  next
    case nz: False
    then have e2: "e2 = e\<lparr>history_index := history_index e + 1\<rparr>" by (simp add: e2_def)
    show ?thesis using True i nz unfolding e2
      by (simp add: arrow_up_def and_then_def Let_def)
  qed
  show ?thesis unfolding u using recall_loaded[OF ws w2 i] by blast
qed

lemma arrow_down_cases:
  assumes ws: "wf_store hs" and w: "wf_editor e"
  shows "(\<exists>e'. arrow_down hs e = Inr e' \<and> wf_editor e')
         \<or> (arrow_down hs e = Inl History_out_of_bounds \<and> int MAX_HISTORY < history_count hs)"
proof (cases "history_index e > 0")
  case False
  then show ?thesis using w by (simp add: arrow_down_def)
next
  case True
  define e1 where "e1 = e\<lparr>history_index := history_index e - 1\<rparr>"
  have w1: "wf_editor e1" using w True by (simp add: e1_def wf_editor_def)
  show ?thesis
  proof (cases "history_index e1 = 0")
    case z: True
    have "arrow_down hs e = load_line e1 (c_str (saved_line e1))"
      using True z by (simp add: arrow_down_def e1_def Let_def)
    then show ?thesis using load_line_wf[OF w1 load_saved(1,2)[OF w1]] by simp
  next
    case nz: False
    show ?thesis
    proof (cases "recall_idx hs e1 < history_count hs")
      case i: True
      have "arrow_down hs e = and_then (history_at hs (recall_idx hs e1)) (load_line e1)"
        using True nz i by (simp add: arrow_down_def e1_def Let_def)
      then show ?thesis using recall_loaded[OF ws w1 i] by auto
    next
      case ni: False
      have "arrow_down hs e = Inr e1"
        using True nz ni by (simp add: arrow_down_def e1_def Let_def)
      then show ?thesis using w1 by simp
    qed
  qed
qed



lemma isprint_not_control:
  "isprint c \<Longrightarrow> c \<noteq> NUL \<and> c \<noteq> CHR 0x0A \<and> c \<noteq> CHR 0x1B \<and> c \<noteq> CHR 0x7F \<and> c \<noteq> CHR 0x08"
  by (auto simp: isprint_def NUL_def)

lemma wf_editor_init: "wf_editor init_editor"
  by (simp add: wf_editor_def init_editor_def wf_buffer_def c_str_def MAX_CMD_LEN_def)

lemma wf_store_init: "wf_store init_history"
  by (simp add: wf_store_def init_history_def)

lemma wf_editor_moves: "wf_editor e \<Longrightarrow> wf_editor (arrow_right e) \<and> wf_editor (arrow_left e)"
  by (simp add: wf_editor_def arrow_right_def arrow_left_def)

lemma escape_key_cases:
  assumes ws: "wf_store hs" and w: "wf_editor e"
  shows "(\<exists>e'. escape_key hs e s0 s1 = Inr e' \<and> wf_editor e')
         \<or> (escape_key hs e s0 s1 = Inl History_out_of_bounds \<and> int MAX_HISTORY < history_count hs)"
  using arrow_up_cases[OF ws w] arrow_down_cases[OF ws w] wf_editor_moves[OF w] w
  by (simp add: escape_key_def)

lemma key_cases:
  assumes w: "wf_editor e"
  shows "\<exists>e'. backspace e = Inr e' \<and> wf_editor e'"
    and "isprint c \<Longrightarrow> \<exists>e'. insert_char e c = Inr e' \<and> wf_editor e'"
proof -
  show "\<exists>e'. backspace e = Inr e' \<and> wf_editor e'" using backspace_wf[OF w] by blast
  show "\<exists>e'. insert_char e c = Inr e' \<and> wf_editor e'" if "isprint c"
  proof (cases "len e < int MAX_CMD_LEN - 1")
    case True
    show ?thesis using insert_char_wf[OF w _ True, of c] isprint_not_control[OF that] by blast
  next
    case False
    then show ?thesis using w insert_char_full by simp
  qed
qed

lemma loop_body_cases:
  assumes ws: "wf_store hs" and w: "wf_editor e"
  shows "(\<exists>e' r. loop_body hs e inp = Inr (Continue e', r) \<and> wf_editor e' \<and> length r < length inp)
       \<or> (\<exists>r. loop_body hs e inp = Inr (Break e, r))
       \<or> (loop_body hs e inp = Inr (Break (e\<lparr>len := 0\<rparr>), []) \<and> inp = [])
       \<or> (loop_body hs e inp = Inl History_out_of_bounds \<and> int MAX_HISTORY < history_count hs)"
proof (cases inp)
  case Nil
  then show ?thesis by (simp add: loop_body_def)
next
  case (Cons c r)
  note inp = this
  show ?thesis
  proof (cases "c = CHR 0x0A")
    case True
    then show ?thesis using inp by (simp add: loop_body_def)
  next
    case nl: False
    show ?thesis
    proof (cases "c = CHR 0x1B")
      case True
      show ?thesis
      proof (cases r)
        case Nil
        then show ?thesis using inp True by (simp add: loop_body_def)
      next
        case (Cons s0 r1)
        note r = this
        show ?thesis
        proof (cases r1)
          case Nil
          then show ?thesis using inp True r by (simp add: loop_body_def)
        next
          case (Cons s1 r2)
          have "loop_body hs e inp = and_then (escape_key hs e s0 s1) (\<lambda>e'. Inr (Continue e', r2))"
            using inp True r Cons by (simp add: loop_body_def)
          then show ?thesis using escape_key_cases[OF ws w, of s0 s1] inp r Cons
            by (auto simp: and_then_def)
        qed
      qed
    next
      case esc: False
      show ?thesis
      proof (cases "c = CHR 0x7F \<or> c = CHR 0x08")
        case True
        then have "loop_body hs e inp = and_then (backspace e) (\<lambda>e'. Inr (Continue e', r))"
          using inp nl esc by (auto simp: loop_body_def)
        then show ?thesis using key_cases(1)[OF w] inp by (auto simp: and_then_def)
      next
        case bs: False
        show ?thesis
        proof (cases "isprint c")
          case True
          then have "loop_body hs e inp = and_then (insert_char e c) (\<lambda>e'. Inr (Continue e', r))"
            using inp nl esc bs by (simp add: loop_body_def)
          then show ?thesis using key_cases(2)[OF w True] inp by (auto simp: and_then_def)
        next
          case False
          then have "loop_body hs e inp = Inr (Continue e, r)"
            using inp nl esc bs by (simp add: loop_body_def)
          then show ?thesis using w inp by simp
        qed
      qed
    qed
  qed
qed

declare read_loop.simps [simp del]

lemma read_loop_result:
  assumes ws: "wf_store hs"
  shows "wf_editor e \<Longrightarrow>
     (\<exists>e' r. read_loop hs e inp = Inr (e', r) \<and> (\<exists>n. wf_buffer (line e') n))
     \<or> (read_loop hs e inp = Inl History_out_of_bounds \<and> int MAX_HISTORY < history_count hs)"
proof (induction inp arbitrary: e rule: length_induct)
  case (1 inp)
  have wb: "\<exists>n. wf_buffer (line e) n" using "1.prems" by (auto simp: wf_editor_def)
  from loop_body_cases[OF ws "1.prems", of inp]
  consider (cont) e' r where "loop_body hs e inp = Inr (Continue e', r)" "wf_editor e'" "length r < length inp"
    | (brk) r where "loop_body hs e inp = Inr (Break e, r)"
    | (eof) "loop_body hs e inp = Inr (Break (e\<lparr>len := 0\<rparr>), [])"
    | (oob) "loop_body hs e inp = Inl History_out_of_bounds" "int MAX_HISTORY < history_count hs"
    by blast
  then show ?case
  proof cases
    case cont
    have "read_loop hs e inp = read_loop hs e' r"
      by (subst read_loop.simps) (simp add: cont(1))
    then show ?thesis using "1.IH" cont(2,3) by simp
  next
    case brk
    have "read_loop hs e inp = Inr (e, r)"
      by (subst read_loop.simps) (simp add: brk)
    then show ?thesis using wb by simp
  next
    case eof
    have "read_loop hs e inp = Inr (e\<lparr>len := 0\<rparr>, [])"
      by (subst read_loop.simps) (simp add: eof)
    then show ?thesis using wb by simp
  next
    case oob
    have "read_loop hs e inp = Inl History_out_of_bounds"
      by (subst read_loop.simps) (simp add: oob)
    then show ?thesis using oob by simp
  qed
qed



lemma terminal_roundtrip:
  "tty (disableRawMode (enableRawMode t)) = tty t \<and>
   tty_log (disableRawMode (enableRawMode t)) = tty_log t @ [raw_of (tty t), tty t]"
  by (simp add: disableRawMode_def enableRawMode_def tcsetattr_def Let_def)

text \<open>
  Claim C5. Whatever the input, and whichever \<^verbatim>\<open>break\<close> leaves the read loop
  (newline, a failed first read, a failed read inside an escape sequence),
  \<^verbatim>\<open>read_line\<close> returns with the terminal attributes it found, having called
  \<^verbatim>\<open>tcsetattr\<close> exactly twice: once to enter raw mode and once to restore. The
  only run that does not return is the one that reads \<^verbatim>\<open>history\<close> outside its
  bounds, which needs more than \<open>MAX_HISTORY\<close> submitted lines.
\<close>

theorem read_line_restores_terminal:
  assumes "wf_store (store sh)"
  shows "(\<exists>sh' l rest. read_line sh inp = Inr (sh', l, rest)
            \<and> tty (terminal sh') = tty (terminal sh)
            \<and> tty_log (terminal sh') = tty_log (terminal sh) @ [raw_of (tty (terminal sh)), tty (terminal sh)])
         \<or> (read_line sh inp = Inl History_out_of_bounds \<and> int MAX_HISTORY < history_count (store sh))"
proof -
  from read_loop_result[OF assms wf_editor_init, of inp]
  consider (ret) e r n where "read_loop (store sh) init_editor inp = Inr (e, r)" "wf_buffer (line e) n"
    | (oob) "read_loop (store sh) init_editor inp = Inl History_out_of_bounds"
            "int MAX_HISTORY < history_count (store sh)"
    by blast
  then show ?thesis
  proof cases
    case ret
    have "strlen (line e) = Inr n" by (rule wf_buffer_strlen[OF ret(2)])
    then show ?thesis using ret(1) terminal_roundtrip[of "terminal sh"]
      by (simp add: read_line_def and_then_def Let_def)
  next
    case oob
    then show ?thesis by (simp add: read_line_def and_then_def Let_def)
  qed
qed


theorem read_line_restores_terminal_witness:
  "wf_store (store sample_shell) \<and>
   (\<exists>sh' l rest. read_line sample_shell (''ls'' @ [CHR 0x1B]) = Inr (sh', l, rest)
      \<and> tty (terminal sh') = sample_termios
      \<and> tty_log (terminal sh') = [raw_of sample_termios, sample_termios])"
proof -
  have w: "wf_store (store sample_shell)" by (simp add: sample_shell_def wf_store_init)
  have "\<not> int MAX_HISTORY < history_count (store sample_shell)"
    by (simp add: sample_shell_def init_history_def)
  then show ?thesis
    using read_line_restores_terminal[OF w, of "''ls'' @ [CHR 0x1B]"] w
    by (auto simp: sample_shell_def)
qed


lemma wf_editor_line:
  assumes "wf_editor e"
  shows "length (line e) = MAX_CMD_LEN" "line e ! nat (len e) = NUL" "strlen (line e) = Inr (nat (len e))"
proof -
  have wb: "wf_buffer (line e) (nat (len e))" using assms by (simp add: wf_editor_def)
  show "length (line e) = MAX_CMD_LEN" using wb by (simp add: wf_buffer_def)
  show "line e ! nat (len e) = NUL" using wb by (simp add: wf_buffer_nth)
  show "strlen (line e) = Inr (nat (len e))" by (rule wf_buffer_strlen[OF wb])
qed

lemma loop_body_printable:
  assumes "isprint c"
  shows "loop_body hs e (c # r) = and_then (insert_char e c) (\<lambda>e'. Inr (Continue e', r))"
  using assms isprint_not_control[OF assms] by (simp add: loop_body_def)

text \<open>
  Claim C10. From a well-formed editor state, one pass through the loop body never
  reads or writes outside a buffer, and every pass that returns to the head of the loop
  (every keystroke handled: a character, Backspace, an arrow, an ignored byte) leaves
  the state well formed: \<open>0 \<le> pos \<le> len \<le> MAX_CMD_LEN - 1\<close>, the buffer has its
  \<open>MAX_CMD_LEN\<close> bytes and is terminated exactly at \<open>len\<close>. A printable character is
  inserted when \<open>len < MAX_CMD_LEN - 1\<close> and is dropped otherwise. The initial state of
  \<^verbatim>\<open>read_line\<close> is well formed (\<open>wf_editor_init\<close>), so this holds at every state
  the loop reaches. The pass that leaves the loop on a failed first read sets \<open>len\<close> to
  0 and keeps the buffer; it is an exit, not an editing step.
\<close>

theorem editor_buffer_well_formed:
  assumes ws: "wf_store hs" and w: "wf_editor e"
  shows "loop_body hs e inp \<notin> {Inl Buffer_overflow, Inl No_terminator, Inl Null_pointer}
       \<and> (\<forall>e' r. loop_body hs e inp = Inr (Continue e', r) \<longrightarrow>
            wf_editor e' \<and> 0 \<le> pos e' \<and> pos e' \<le> len e' \<and> len e' \<le> int MAX_CMD_LEN - 1 \<and>
            length (line e') = MAX_CMD_LEN \<and> line e' ! nat (len e') = NUL \<and>
            strlen (line e') = Inr (nat (len e')))
       \<and> (\<forall>c r. isprint c \<longrightarrow>
            (if len e < int MAX_CMD_LEN - 1
             then \<exists>e'. loop_body hs e (c # r) = Inr (Continue e', r) \<and> len e' = len e + 1 \<and> pos e' = pos e + 1
             else loop_body hs e (c # r) = Inr (Continue e, r)))"
proof -
  have a: "loop_body hs e inp \<notin> {Inl Buffer_overflow, Inl No_terminator, Inl Null_pointer}"
    using loop_body_cases[OF ws w, of inp] by auto
  have b: "wf_editor e' \<and> 0 \<le> pos e' \<and> pos e' \<le> len e' \<and> len e' \<le> int MAX_CMD_LEN - 1 \<and>
            length (line e') = MAX_CMD_LEN \<and> line e' ! nat (len e') = NUL \<and>
            strlen (line e') = Inr (nat (len e'))"
    if "loop_body hs e inp = Inr (Continue e', r)" for e' r
  proof -
    have w': "wf_editor e'" using that loop_body_cases[OF ws w, of inp] by auto
    then show ?thesis using wf_editor_line[OF w'] by (simp add: wf_editor_def)
  qed
  have c: "if len e < int MAX_CMD_LEN - 1
        then \<exists>e'. loop_body hs e (c # r) = Inr (Continue e', r) \<and> len e' = len e + 1 \<and> pos e' = pos e + 1
        else loop_body hs e (c # r) = Inr (Continue e, r)" if c: "isprint c" for c r
  proof (cases "len e < int MAX_CMD_LEN - 1")
    case True
    from insert_char_wf[OF w _ True, of c] isprint_not_control[OF c]
    obtain e' where "insert_char e c = Inr e'" "len e' = len e + 1" "pos e' = pos e + 1" by blast
    then show ?thesis using True by (simp add: loop_body_printable[OF c] and_then_def)
  next
    case False
    then show ?thesis by (simp add: loop_body_printable[OF c] insert_char_full and_then_def)
  qed
  show ?thesis using a b c by blast
qed

theorem editor_buffer_well_formed_witness:
  "wf_store init_history \<and> wf_editor init_editor \<and>
   (\<exists>e'. loop_body init_history init_editor ''a'' = Inr (Continue e', []) \<and> wf_editor e' \<and>
          len e' = 1 \<and> pos e' = 1 \<and> line e' ! 1 = NUL \<and> strlen (line e') = Inr 1)"
proof -
  have p: "isprint (CHR ''a'')" by (simp add: isprint_def)
  have r: "len init_editor < int MAX_CMD_LEN - 1" by (simp add: init_editor_def MAX_CMD_LEN_def)
  from editor_buffer_well_formed[OF wf_store_init wf_editor_init, of "''a''"] p r
  obtain e' where e: "loop_body init_history init_editor ''a'' = Inr (Continue e', [])"
     "len e' = len init_editor + 1" "pos e' = pos init_editor + 1"
    by (metis (full_types))
  with editor_buffer_well_formed[OF wf_store_init wf_editor_init, of "''a''"]
  have "wf_editor e' \<and> line e' ! nat (len e') = NUL \<and> strlen (line e') = Inr (nat (len e'))" by blast
  then show ?thesis using e wf_store_init wf_editor_init by (auto simp: init_editor_def)
qed



lemma arrow_up_empty:
  assumes "history_count hs = 0" "0 \<le> history_index e"
  shows "arrow_up hs e = Inr e"
  using assms by (simp add: arrow_up_def)

lemma arrow_up_first:
  assumes ws: "wf_store hs" and w: "wf_editor e" and h0: "history_index e = 0"
    and c: "0 < history_count hs" "history_count hs \<le> int MAX_HISTORY"
  shows "\<exists>s. arrow_up hs e =
           Inr (e\<lparr>line := s @ replicate (MAX_CMD_LEN - length s) NUL, saved_line := line e,
                 len := int (length s), pos := int (length s), history_index := 1\<rparr>)
         \<and> history hs ! nat (history_count hs - 1) = Some s \<and> NUL \<notin> set s \<and> length s < MAX_CMD_LEN"
proof -
  let ?e2 = "e\<lparr>saved_line := line e, history_index := 1\<rparr>"
  have i: "recall_idx hs ?e2 = history_count hs - 1" using c by (simp add: recall_idx_def)
  have w2: "wf_editor ?e2" using wf_editor_saved[OF w] by (simp add: wf_editor_def)
  from history_at_wf[OF ws, of "history_count hs - 1"] c
  obtain s where s: "history_at hs (history_count hs - 1) = Inr s" "NUL \<notin> set s" "length s < MAX_CMD_LEN"
    by auto
  then have hs: "history hs ! nat (history_count hs - 1) = Some s"
    using c by (auto simp: history_at_def split: option.splits if_splits)
  have "arrow_up hs e = load_line ?e2 s"
    using c h0 i s(1) by (simp add: arrow_up_def save_line[OF w] and_then_def Let_def)
  then show ?thesis using load_line_wf(1)[OF w2 s(2,3)] hs s(2,3) by simp
qed

lemma arrow_down_first:
  assumes w: "wf_editor e" and h1: "history_index e = 1"
  shows "arrow_down hs e =
           Inr (e\<lparr>line := saved_line e, len := int (length (c_str (saved_line e))),
                 pos := int (length (c_str (saved_line e))), history_index := 0\<rparr>)"
proof -
  let ?e1 = "e\<lparr>history_index := 0\<rparr>"
  have w1: "wf_editor ?e1" using w by (simp add: wf_editor_def)
  have "arrow_down hs e = load_line ?e1 (c_str (saved_line ?e1))"
    using h1 by (simp add: arrow_down_def Let_def)
  then show ?thesis using load_line_wf(1)[OF w1 load_saved(1,2)[OF w1]] load_saved(3)[OF w1]
    by simp
qed

text \<open>
  Claim C8, as amended. With an empty history Up changes nothing at all. From a
  well-formed state that is not browsing (browse index 0), with between 1 and
  \<open>MAX_HISTORY\<close> lines in the history, Up followed by Down gives back the buffer and
  the length exactly, and puts the cursor at the end of the line: the cursor is where it
  was only if it was at the end.
\<close>

theorem recall_up_then_down:
  assumes ws: "wf_store hs" and w: "wf_editor e"
  shows "(history_count hs = 0 \<longrightarrow> arrow_up hs e = Inr e)
       \<and> (history_index e = 0 \<and> 0 < history_count hs \<and> history_count hs \<le> int MAX_HISTORY \<longrightarrow>
            (\<exists>e1 e2. arrow_up hs e = Inr e1 \<and> arrow_down hs e1 = Inr e2 \<and>
               line e2 = line e \<and> len e2 = len e \<and> pos e2 = len e \<and> history_index e2 = 0))"
proof (intro conjI impI)
  assume "history_count hs = 0"
  then show "arrow_up hs e = Inr e" using w by (simp add: arrow_up_empty wf_editor_def)
next
  assume a: "history_index e = 0 \<and> 0 < history_count hs \<and> history_count hs \<le> int MAX_HISTORY"
  from arrow_up_first[OF ws w] a obtain s where
    u: "arrow_up hs e = Inr (e\<lparr>line := s @ replicate (MAX_CMD_LEN - length s) NUL, saved_line := line e,
                 len := int (length s), pos := int (length s), history_index := 1\<rparr>)"
    and s: "NUL \<notin> set s" "length s < MAX_CMD_LEN" by blast
  let ?e1 = "e\<lparr>line := s @ replicate (MAX_CMD_LEN - length s) NUL, saved_line := line e,
                 len := int (length s), pos := int (length s), history_index := 1\<rparr>"
  have "wf_editor (e\<lparr>saved_line := line e, history_index := 1\<rparr>)"
    using wf_editor_saved[OF w] by (simp add: wf_editor_def)
  from load_line_wf(2)[OF this s] have w1: "wf_editor ?e1" by (simp add: wf_editor_def)
  have n: "int (length (c_str (line e))) = len e"
    using wf_editor_line(3)[OF w] w by (simp add: strlen_def wf_editor_def split: if_splits)
  have "arrow_down hs ?e1 = Inr (?e1\<lparr>line := line e, len := len e, pos := len e, history_index := 0\<rparr>)"
    using arrow_down_first[OF w1, of hs] n by simp
  then show "\<exists>e1 e2. arrow_up hs e = Inr e1 \<and> arrow_down hs e1 = Inr e2 \<and>
               line e2 = line e \<and> len e2 = len e \<and> pos e2 = len e \<and> history_index e2 = 0"
    using u by simp
qed



lemma one_line_store_eq:
  "history one_line_store = Some ''ls'' # replicate (MAX_HISTORY - 1) None"
  "history_count one_line_store = 1"
  using submit_all_init[of "[''ls'']"]
  by (simp_all add: one_line_store_def submit_all_def MAX_HISTORY_def INT_MAX_def)

lemma wf_one_line_store: "wf_store one_line_store"
  by (simp add: wf_store_def one_line_store_eq wf_entry_def NUL_def MAX_CMD_LEN_def MAX_HISTORY_def)

lemma wf_buffer_two:
  assumes "c \<noteq> NUL" "d \<noteq> NUL"
  shows "wf_buffer ([c, d] @ replicate (MAX_CMD_LEN - 2) NUL) 2"
proof -
  have "wf_buffer ([c, d] @ replicate (MAX_CMD_LEN - length [c, d]) NUL) (length [c, d])"
    by (rule wf_buffer_pad) (use assms in \<open>simp_all add: MAX_CMD_LEN_def\<close>)
  moreover have "length [c, d] = 2" by simp
  ultimately show ?thesis by metis
qed

lemma wf_mid_cursor_editor: "wf_editor mid_cursor_editor"
proof -
  have "wf_buffer (''ab'' @ replicate (MAX_CMD_LEN - 2) NUL) 2"
    by (rule wf_buffer_two) (simp_all add: NUL_def)
  moreover have "wf_buffer (replicate MAX_CMD_LEN NUL) (length (c_str (replicate MAX_CMD_LEN NUL)))"
    using wf_editor_init by (simp add: wf_editor_def init_editor_def)
  moreover have "2 < MAX_CMD_LEN" by (simp add: MAX_CMD_LEN_def)
  ultimately show ?thesis by (simp add: wf_editor_def mid_cursor_editor_def)
qed

theorem recall_up_then_down_witness:
  "wf_store one_line_store \<and> wf_editor mid_cursor_editor \<and>
   history_index mid_cursor_editor = 0 \<and> history_count one_line_store = 1 \<and>
   (\<exists>e1 e2. arrow_up one_line_store mid_cursor_editor = Inr e1 \<and>
      arrow_down one_line_store e1 = Inr e2 \<and>
      line e2 = line mid_cursor_editor \<and> len e2 = 2 \<and> pos e2 = 2) \<and>
   wf_store init_history \<and> history_count init_history = 0 \<and>
   arrow_up init_history mid_cursor_editor = Inr mid_cursor_editor"
proof -
  have a: "history_index mid_cursor_editor = 0" "len mid_cursor_editor = 2"
    by (simp_all add: mid_cursor_editor_def)
  have b: "history_count init_history = 0" by (simp add: init_history_def)
  show ?thesis
    using recall_up_then_down[OF wf_one_line_store wf_mid_cursor_editor]
      recall_up_then_down[OF wf_store_init wf_mid_cursor_editor]
      wf_one_line_store wf_mid_cursor_editor wf_store_init a b one_line_store_eq(2)
    by (auto simp: MAX_HISTORY_def)
qed

text \<open>
  Claim C8 as stated fails: with the cursor inside the line, Up then Down gives back the
  buffer and the length but leaves the cursor at the end (2), not where it was (1).
\<close>

theorem recall_cursor_counterexample:
  "and_then (arrow_up one_line_store mid_cursor_editor) (arrow_down one_line_store) =
     Inr (mid_cursor_editor\<lparr>saved_line := line mid_cursor_editor, pos := 2\<rparr>)
   \<and> pos mid_cursor_editor = 1"
proof -
  have h0: "history_index mid_cursor_editor = 0" by (simp add: mid_cursor_editor_def)
  have c: "0 < history_count one_line_store" "history_count one_line_store \<le> int MAX_HISTORY"
    by (simp_all add: one_line_store_eq MAX_HISTORY_def)
  from arrow_up_first[OF wf_one_line_store wf_mid_cursor_editor h0 c]
  have u: "arrow_up one_line_store mid_cursor_editor =
       Inr (mid_cursor_editor\<lparr>line := ''ls'' @ replicate (MAX_CMD_LEN - 2) NUL,
              saved_line := line mid_cursor_editor, len := 2, pos := 2, history_index := 1\<rparr>)"
    by (auto simp: one_line_store_eq)
  let ?e1 = "mid_cursor_editor\<lparr>line := ''ls'' @ replicate (MAX_CMD_LEN - 2) NUL,
              saved_line := line mid_cursor_editor, len := 2, pos := 2, history_index := 1\<rparr>"
  have "wf_buffer (''ls'' @ replicate (MAX_CMD_LEN - 2) NUL) 2"
    by (rule wf_buffer_two) (simp_all add: NUL_def)
  moreover have "wf_editor (mid_cursor_editor\<lparr>saved_line := line mid_cursor_editor\<rparr>)"
    by (rule wf_editor_saved[OF wf_mid_cursor_editor])
  moreover have "2 < MAX_CMD_LEN" by (simp add: MAX_CMD_LEN_def)
  ultimately have w1: "wf_editor ?e1" by (simp add: wf_editor_def)
  have n: "length (c_str (line mid_cursor_editor)) = 2"
    using wf_editor_line(3)[OF wf_mid_cursor_editor]
    by (simp add: strlen_def mid_cursor_editor_def split: if_splits)
  have "arrow_down one_line_store ?e1 =
      Inr (mid_cursor_editor\<lparr>saved_line := line mid_cursor_editor, pos := 2\<rparr>)"
    using arrow_down_first[OF w1, of one_line_store] n
    by (simp add: mid_cursor_editor_def)
  then show ?thesis using u by (simp add: and_then_def mid_cursor_editor_def)
qed




text \<open>
  Claim C9 fails on the code. After 101 submitted lines \<^verbatim>\<open>history_count\<close> is 101, the
  first Up computes \<open>idx = 101 - 1 = 100\<close>, the guard \<^verbatim>\<open>idx < history_count\<close> lets it
  through, and \<^verbatim>\<open>history[100]\<close> is read: one slot past the end of the array.
\<close>

theorem history_recall_out_of_bounds:
  "recall_idx (submit_all init_history (sample_lines 101)) (init_editor\<lparr>history_index := 1\<rparr>) = 100
   \<and> arrow_up (submit_all init_history (sample_lines 101)) init_editor = Inl History_out_of_bounds
   \<and> read_loop (submit_all init_history (sample_lines 101)) init_editor
        [CHR 0x1B, CHR ''['', CHR ''A''] = Inl History_out_of_bounds"
proof -
  let ?hs = "submit_all init_history (sample_lines 101)"
  have i: "recall_idx ?hs (init_editor\<lparr>history_index := 1\<rparr>) = 100"
    by (simp add: recall_idx_def store_101)
  have h: "history_index init_editor = 0" by (simp add: init_editor_def)
  have a: "history_at ?hs 100 = Inl History_out_of_bounds"
    by (simp add: history_at_def MAX_HISTORY_def)
  have i2: "recall_idx ?hs (init_editor\<lparr>saved_line := line init_editor, history_index := 1\<rparr>) = 100"
    by (simp add: recall_idx_def store_101)
  have u: "arrow_up ?hs init_editor = Inl History_out_of_bounds"
    using h i2 a
    by (simp add: arrow_up_def store_101(1) save_line[OF wf_editor_init] and_then_def Let_def)
  have "loop_body ?hs init_editor [CHR 0x1B, CHR ''['', CHR ''A''] = Inl History_out_of_bounds"
    using u by (simp add: loop_body_def escape_key_def and_then_def)
  then have "read_loop ?hs init_editor [CHR 0x1B, CHR ''['', CHR ''A''] = Inl History_out_of_bounds"
    by (subst read_loop.simps) simp
  then show ?thesis using i u by simp
qed


subsection \<open>Reachable states\<close>

text \<open>
  The store stays well formed: it is at start (\<open>wf_store_init\<close>), and every
  \<^verbatim>\<open>read_line\<close> that returns hands back a well-formed store, as long as the counter
  has not reached \<open>INT_MAX\<close>. The Up and Down keys
  reach \<open>arrow_up\<close> and \<open>arrow_down\<close> through the loop body.
\<close>


lemma add_to_history_wf:
  assumes w: "wf_store hs" and s: "NUL \<notin> set s" "length s < MAX_CMD_LEN"
    and b: "history_count hs < INT_MAX"
  shows "wf_store (add_to_history hs s)"
proof (cases "s = []")
  case True
  then show ?thesis using w by (simp add: add_to_history_def)
next
  case False
  have l: "length (history hs) = MAX_HISTORY" and c: "0 \<le> history_count hs"
    and a: "list_all wf_entry (take (nat (history_count hs)) (history hs))"
    using w by (simp_all add: wf_store_def)
  have e: "wf_entry (Some s)" using s by (simp add: wf_entry_def)
  have iw: "int_wrap (history_count hs + 1) = history_count hs + 1"
    using b c by (intro int_wrap_id) simp_all
  show ?thesis
  proof (cases "history_count hs < int MAX_HISTORY")
    case True
    define n where "n = nat (history_count hs)"
    have n: "n < length (history hs)" "nat (history_count hs + 1) = Suc n"
      using True c l by (simp_all add: n_def)
    have "take (Suc n) ((history hs)[n := Some s]) = take n (history hs) @ [Some s]"
      using n(1) by (simp add: take_Suc_conv_app_nth)
    then have "list_all wf_entry (take (Suc n) ((history hs)[n := Some s]))"
      using a e by (simp add: n_def)
    then show ?thesis using False True c l n(2) iw
      by (simp add: add_to_history_def wf_store_def n_def)
  next
    case full: False
    then have "take (nat (history_count hs)) (history hs) = history hs" using l by simp
    then have all: "list_all wf_entry (history hs)" using a by simp
    have ne: "history hs \<noteq> []" using l by (auto simp: MAX_HISTORY_def)
    have "(shift_history 0 (history hs))[MAX_HISTORY - 1 := Some s] =
          (tl (history hs) @ [last (history hs)])[MAX_HISTORY - 1 := Some s]"
      using shift_history_0[OF l] by simp
    also have "\<dots> = tl (history hs) @ [Some s]"
      using l by (simp add: list_update_append MAX_HISTORY_def)
    finally have h: "(shift_history 0 (history hs))[MAX_HISTORY - 1 := Some s] = tl (history hs) @ [Some s]" .
    have "list_all wf_entry (tl (history hs))"
      using all ne by (cases "history hs") simp_all
    then have "list_all wf_entry (tl (history hs) @ [Some s])" using e by simp
    moreover have "length (tl (history hs) @ [Some s]) = MAX_HISTORY"
      using l by (simp add: MAX_HISTORY_def)
    ultimately show ?thesis using False full c h iw
      by (simp add: add_to_history_def wf_store_def)
  qed
qed

lemma read_line_wf_store:
  assumes w: "wf_store (store sh)" and r: "read_line sh inp = Inr (sh', l, rest)"
    and b: "history_count (store sh) < INT_MAX"
  shows "wf_store (store sh')"
proof -
  from read_loop_result[OF w wf_editor_init, of inp] r
  obtain e r' n where rl: "read_loop (store sh) init_editor inp = Inr (e, r')" and wb: "wf_buffer (line e) n"
    by (auto simp: read_line_def and_then_def Let_def)
  have sl: "strlen (line e) = Inr n" by (rule wf_buffer_strlen[OF wb])
  have c: "c_str (line e) = take n (line e)" by (rule wf_buffer_c_str[OF wb])
  have s: "NUL \<notin> set (c_str (line e))" "length (c_str (line e)) < MAX_CMD_LEN"
    using wb unfolding c by (simp_all add: wf_buffer_def)
  have "store sh' = (if len e > 0 then add_to_history (store sh) (c_str (line e)) else store sh)"
    using r rl sl by (auto simp: read_line_def and_then_def Let_def)
  then show ?thesis using w add_to_history_wf[OF w s b] by simp
qed

lemma loop_body_up:
  "loop_body hs e (CHR 0x1B # CHR ''['' # CHR ''A'' # r) =
     and_then (arrow_up hs e) (\<lambda>e'. Inr (Continue e', r))"
  by (simp add: loop_body_def escape_key_def)

lemma loop_body_down:
  "loop_body hs e (CHR 0x1B # CHR ''['' # CHR ''B'' # r) =
     and_then (arrow_down hs e) (\<lambda>e'. Inr (Continue e', r))"
  by (simp add: loop_body_def escape_key_def)


section \<open>Parser: properties\<close>


declare parse_args.simps [simp del] parse_segments.simps [simp del]
  ws_tokens.simps [simp del] quote_remainder.simps [simp del]

lemma ws_tokens_None: "fst (strtok_r s blanks) = None \<Longrightarrow> ws_tokens s = []"
  by (subst ws_tokens.simps) simp

lemma ws_tokens_Some:
  "fst (strtok_r s blanks) = Some t \<Longrightarrow> ws_tokens s = t # ws_tokens (snd (strtok_r s blanks))"
  by (subst ws_tokens.simps) simp

lemma ws_tokens_Nil_iff: "ws_tokens s = [] \<longleftrightarrow> fst (strtok_r s blanks) = None"
  by (subst ws_tokens.simps) (simp split: option.splits)

lemma quote_remainder_closed: "closed_quote a \<Longrightarrow> quote_remainder a = quote_remainder (after_quote a)"
  by (subst quote_remainder.simps) simp

lemma quote_remainder_open: "\<not> closed_quote a \<Longrightarrow> quote_remainder a = a"
  by (subst quote_remainder.simps) simp

lemma redirect_not_quoted: "is_redirect a \<Longrightarrow> \<not> closed_quote a"
  by (auto simp: is_redirect_def closed_quote_def dquote_def)

lemma redirect_output_none:
  "fst (strtok_r sp blanks) = None \<Longrightarrow> redirect_output a sp cmd = cmd"
  by (cases "strtok_r sp blanks") (simp add: redirect_output_def)

lemma redirect_input_none:
  "fst (strtok_r sp blanks) = None \<Longrightarrow> redirect_input sp cmd = cmd"
  by (simp add: redirect_input_def)

lemma parse_args_no_redirection:
  assumes "input_file cmd = None" "output_file cmd = None"
    and "\<forall>a. arg = Some a \<longrightarrow> (\<forall>t \<in> set (butlast (a # ws_tokens sp)). \<not> is_redirect (quote_remainder t))"
  shows "input_file (parse_args arg sp cmd) = None \<and> output_file (parse_args arg sp cmd) = None"
  using assms
proof (induction arg sp cmd rule: parse_args.induct)
  case (1 arg sp cmd)
  show ?case
  proof (cases arg)
    case None
    then show ?thesis using "1.prems" by (subst (1 2) parse_args.simps) simp
  next
    case (Some a)
    note arg = this
    have H: "\<forall>t \<in> set (butlast (a # ws_tokens sp)). \<not> is_redirect (quote_remainder t)"
      using "1.prems"(3) arg by simp
    have last_tok: "fst (strtok_r sp blanks) = None" if "is_redirect a"
    proof (rule ccontr)
      assume "fst (strtok_r sp blanks) \<noteq> None"
      then have "ws_tokens sp \<noteq> []" by (simp add: ws_tokens_Nil_iff)
      then have "a \<in> set (butlast (a # ws_tokens sp))" by simp
      then have "\<not> is_redirect (quote_remainder a)" using H by blast
      then show False using that quote_remainder_open[OF redirect_not_quoted[OF that]] by simp
    qed
    have next_tok: "\<forall>a'. fst (strtok_r sp blanks) = Some a' \<longrightarrow>
        (\<forall>t \<in> set (butlast (a' # ws_tokens (snd (strtok_r sp blanks)))). \<not> is_redirect (quote_remainder t))"
    proof (intro allI impI)
      fix a' assume "fst (strtok_r sp blanks) = Some a'"
      then have "ws_tokens sp = a' # ws_tokens (snd (strtok_r sp blanks))" by (rule ws_tokens_Some)
      then show "\<forall>t \<in> set (butlast (a' # ws_tokens (snd (strtok_r sp blanks)))). \<not> is_redirect (quote_remainder t)"
        using H by simp
    qed
    show ?thesis
    proof (cases "length (args cmd) < MAX_ARGS - 1")
      case False
      then show ?thesis using arg "1.prems" by (subst (1 2) parse_args.simps) simp
    next
      case cap: True
      show ?thesis
      proof (cases "a = ''>'' \<or> a = ''>>''")
        case True
        then have "is_redirect a" by (auto simp: is_redirect_def)
        then have "redirect_output a sp cmd = cmd" using last_tok redirect_output_none by simp
        then show ?thesis using arg cap True "1.prems" by (subst (1 2) parse_args.simps) simp
      next
        case nout: False
        show ?thesis
        proof (cases "a = ''<''")
          case True
          then have "is_redirect a" by (auto simp: is_redirect_def)
          then have "redirect_input sp cmd = cmd" using last_tok redirect_input_none by simp
          then show ?thesis using arg cap nout True "1.prems" by (subst (1 2) parse_args.simps) simp
        next
          case nin: False
          show ?thesis
          proof (cases "a = ''&''")
            case True
            have "input_file (parse_args (fst (strtok_r sp blanks)) (snd (strtok_r sp blanks)) (cmd\<lparr>background := True\<rparr>)) = None \<and>
                  output_file (parse_args (fst (strtok_r sp blanks)) (snd (strtok_r sp blanks)) (cmd\<lparr>background := True\<rparr>)) = None"
              using "1.IH"(1)[OF arg _ nout nin True] cap "1.prems"(1,2) next_tok by simp
            then show ?thesis using arg cap nout nin True by (subst (1 2) parse_args.simps) simp
          next
            case namp: False
            show ?thesis
            proof (cases "closed_quote a")
              case True
              have "\<forall>t \<in> set (butlast (after_quote a # ws_tokens sp)). \<not> is_redirect (quote_remainder t)"
                using H quote_remainder_closed[OF True] by (cases "ws_tokens sp = []") auto
              then have "input_file (parse_args (Some (after_quote a)) sp (cmd\<lparr>args := args cmd @ [quoted_part a]\<rparr>)) = None \<and>
                  output_file (parse_args (Some (after_quote a)) sp (cmd\<lparr>args := args cmd @ [quoted_part a]\<rparr>)) = None"
                using "1.IH"(2)[OF arg _ nout nin namp True] cap "1.prems"(1,2) by simp
              then show ?thesis using arg cap nout nin namp True by (subst (1 2) parse_args.simps) simp
            next
              case False
              have "input_file (parse_args (fst (strtok_r sp blanks)) (snd (strtok_r sp blanks)) (cmd\<lparr>args := args cmd @ [a]\<rparr>)) = None \<and>
                  output_file (parse_args (fst (strtok_r sp blanks)) (snd (strtok_r sp blanks)) (cmd\<lparr>args := args cmd @ [a]\<rparr>)) = None"
                using "1.IH"(3)[OF arg _ nout nin namp False] cap "1.prems"(1,2) next_tok by simp
              then show ?thesis using arg cap nout nin namp False by (subst (1 2) parse_args.simps) simp
            qed
          qed
        qed
      qed
    qed
  qed
qed

lemma redirect_output_input [simp]: "input_file (redirect_output a sp cmd) = input_file cmd"
  by (cases "strtok_r sp blanks") (auto simp: redirect_output_def Let_def split: option.splits)

lemma redirect_input_output [simp]: "output_file (redirect_input sp cmd) = output_file cmd"
  by (simp add: redirect_input_def split: option.splits)

lemma first_redirect_Cons:
  "first_redirect (t # ts) =
     (if is_redirect (quote_remainder t) then Some (quote_remainder t) else first_redirect ts)"
  by (simp add: first_redirect_def)

lemma parse_args_stream:
  assumes "is_redirect op"
    and "\<forall>a. arg = Some a \<longrightarrow> last (a # ws_tokens sp) = op \<and>
           (\<forall>r. first_redirect (butlast (a # ws_tokens sp)) = Some r \<longrightarrow> \<not> same_stream r op)"
  shows "stream_file op (parse_args arg sp cmd) = stream_file op cmd"
  using assms
proof (induction arg sp cmd rule: parse_args.induct)
  case (1 arg sp cmd)
  show ?case
  proof (cases arg)
    case None
    then show ?thesis by (subst parse_args.simps) simp
  next
    case (Some a)
    note arg = this
    have L: "last (a # ws_tokens sp) = op"
      and H: "\<forall>r. first_redirect (butlast (a # ws_tokens sp)) = Some r \<longrightarrow> \<not> same_stream r op"
      using "1.prems"(2) arg by simp_all
    note op = "1.prems"(1)
    have other: "\<not> same_stream a op" if "is_redirect a" "fst (strtok_r sp blanks) \<noteq> None"
    proof -
      have "ws_tokens sp \<noteq> []" using that(2) by (simp add: ws_tokens_Nil_iff)
      then have "butlast (a # ws_tokens sp) = a # butlast (ws_tokens sp)" by simp
      moreover have "quote_remainder a = a"
        using quote_remainder_open[OF redirect_not_quoted[OF that(1)]] .
      ultimately have "first_redirect (butlast (a # ws_tokens sp)) = Some a"
        using that(1) by (simp add: first_redirect_Cons)
      then show ?thesis using H by blast
    qed
    have next_tok: "\<forall>a'. fst (strtok_r sp blanks) = Some a' \<longrightarrow>
        last (a' # ws_tokens (snd (strtok_r sp blanks))) = op \<and>
        (\<forall>r. first_redirect (butlast (a' # ws_tokens (snd (strtok_r sp blanks)))) = Some r \<longrightarrow>
             \<not> same_stream r op)"
      if plain: "\<not> is_redirect a" "\<not> closed_quote a"
    proof (intro allI impI)
      fix a' assume "fst (strtok_r sp blanks) = Some a'"
      then have w: "ws_tokens sp = a' # ws_tokens (snd (strtok_r sp blanks))" by (rule ws_tokens_Some)
      have q: "quote_remainder a = a" using quote_remainder_open[OF plain(2)] .
      have "first_redirect (butlast (a # ws_tokens sp)) =
            first_redirect (butlast (a' # ws_tokens (snd (strtok_r sp blanks))))"
        unfolding w using plain(1) q by (simp add: first_redirect_Cons)
      then show "last (a' # ws_tokens (snd (strtok_r sp blanks))) = op \<and>
        (\<forall>r. first_redirect (butlast (a' # ws_tokens (snd (strtok_r sp blanks)))) = Some r \<longrightarrow>
             \<not> same_stream r op)"
        using L H w by simp
    qed
    show ?thesis
    proof (cases "length (args cmd) < MAX_ARGS - 1")
      case False
      then show ?thesis using arg by (subst parse_args.simps) simp
    next
      case cap: True
      show ?thesis
      proof (cases "a = ''>'' \<or> a = ''>>''")
        case True
        then have r: "is_redirect a" by (auto simp: is_redirect_def)
        have "stream_file op (redirect_output a sp cmd) = stream_file op cmd"
        proof (cases "fst (strtok_r sp blanks)")
          case None
          then show ?thesis using redirect_output_none by simp
        next
          case (Some f)
          then have "\<not> same_stream a op" using other[OF r] by simp
          then have "op = ''<''" using True by (auto simp: same_stream_def)
          then show ?thesis by (simp add: stream_file_def)
        qed
        then show ?thesis using arg cap True by (subst parse_args.simps) simp
      next
        case nout: False
        show ?thesis
        proof (cases "a = ''<''")
          case True
          then have r: "is_redirect a" by (auto simp: is_redirect_def)
          have "stream_file op (redirect_input sp cmd) = stream_file op cmd"
          proof (cases "fst (strtok_r sp blanks)")
            case None
            then show ?thesis using redirect_input_none by simp
          next
            case (Some f)
            then have "\<not> same_stream a op" using other[OF r] by simp
            then have "op \<noteq> ''<''" using True by (auto simp: same_stream_def)
            then show ?thesis by (simp add: stream_file_def)
          qed
          then show ?thesis using arg cap nout True by (subst parse_args.simps) simp
        next
          case nin: False
          have nr: "\<not> is_redirect a" using nout nin by (auto simp: is_redirect_def)
          show ?thesis
          proof (cases "a = ''&''")
            case True
            then have ncq: "\<not> closed_quote a" by (simp add: closed_quote_def dquote_def)
            have "stream_file op (parse_args (fst (strtok_r sp blanks)) (snd (strtok_r sp blanks)) (cmd\<lparr>background := True\<rparr>))
                  = stream_file op (cmd\<lparr>background := True\<rparr>)"
              using "1.IH"(1)[OF arg _ nout nin True op] cap next_tok[OF nr ncq] by simp
            then show ?thesis using arg cap nout nin True
              by (subst parse_args.simps) (simp add: stream_file_def)
          next
            case namp: False
            show ?thesis
            proof (cases "closed_quote a")
              case True
              have ne: "ws_tokens sp \<noteq> []"
              proof
                assume "ws_tokens sp = []"
                then have "a = op" using L by simp
                then show False using redirect_not_quoted[OF op] True by simp
              qed
              have "first_redirect (butlast (after_quote a # ws_tokens sp)) =
                    first_redirect (butlast (a # ws_tokens sp))"
                using ne quote_remainder_closed[OF True] by (simp add: first_redirect_Cons)
              then have "\<forall>x. Some (after_quote a) = Some x \<longrightarrow> last (x # ws_tokens sp) = op \<and>
                  (\<forall>r. first_redirect (butlast (x # ws_tokens sp)) = Some r \<longrightarrow> \<not> same_stream r op)"
                using L H ne by simp
              then have "stream_file op (parse_args (Some (after_quote a)) sp (cmd\<lparr>args := args cmd @ [quoted_part a]\<rparr>))
                  = stream_file op (cmd\<lparr>args := args cmd @ [quoted_part a]\<rparr>)"
                using "1.IH"(2)[OF arg _ nout nin namp True op] cap by simp
              then show ?thesis using arg cap nout nin namp True
                by (subst parse_args.simps) (simp add: stream_file_def)
            next
              case False
              have "stream_file op (parse_args (fst (strtok_r sp blanks)) (snd (strtok_r sp blanks)) (cmd\<lparr>args := args cmd @ [a]\<rparr>))
                  = stream_file op (cmd\<lparr>args := args cmd @ [a]\<rparr>)"
                using "1.IH"(3)[OF arg _ nout nin namp False op] cap next_tok[OF nr False] by simp
              then show ?thesis using arg cap nout nin namp False
                by (subst parse_args.simps) (simp add: stream_file_def)
            qed
          qed
        qed
      qed
    qed
  qed
qed

lemma first_redirect_None_iff:
  "first_redirect ts = None \<longleftrightarrow> (\<forall>t \<in> set ts. \<not> is_redirect (quote_remainder t))"
  by (auto simp: first_redirect_def find_None_iff)

text \<open>
  Claim C6, as amended. Take a segment whose last token is a redirection operator, so
  that no file name follows it, and suppose that the first token of the segment that is
  a redirection operator (or leaves one once its leading quoted spans are taken) is
  that last token itself or an operator of the other stream. Then the Stage has no
  redirection for the stream of the last operator: the input file is unset when the
  operator is \<^verbatim>\<open><\<close>, the output file when it is \<^verbatim>\<open>>\<close> or \<^verbatim>\<open>>>\<close>. When no earlier
  token is an operator at all, neither file is set. Parsing has no error result at all.
\<close>

theorem missing_filename_no_redirection:
  assumes "ws_tokens seg = pre @ [op]" and "is_redirect op"
    and "\<forall>r. first_redirect pre = Some r \<longrightarrow> \<not> same_stream r op"
  shows "stream_file op (parse_command seg) = None \<and>
         (first_redirect pre = None \<longrightarrow>
            input_file (parse_command seg) = None \<and> output_file (parse_command seg) = None)"
proof -
  from assms(1) have "ws_tokens seg \<noteq> []" by simp
  then obtain a where a: "fst (strtok_r seg blanks) = Some a"
    by (auto simp: ws_tokens_Nil_iff)
  have e: "a # ws_tokens (snd (strtok_r seg blanks)) = pre @ [op]"
    using ws_tokens_Some[OF a] assms(1) by simp
  have "stream_file op (parse_args (Some a) (snd (strtok_r seg blanks)) empty_command)
        = stream_file op empty_command"
  proof (rule parse_args_stream[OF assms(2)], intro allI impI)
    fix x assume "Some a = Some x"
    then have x: "x = a" by simp
    have "last (a # ws_tokens (snd (strtok_r seg blanks))) = op"
      and "butlast (a # ws_tokens (snd (strtok_r seg blanks))) = pre"
      unfolding e by simp_all
    then show "last (x # ws_tokens (snd (strtok_r seg blanks))) = op \<and>
       (\<forall>r. first_redirect (butlast (x # ws_tokens (snd (strtok_r seg blanks)))) = Some r \<longrightarrow>
            \<not> same_stream r op)"
      unfolding x using assms(3) by (simp only: simp_thms)
  qed
  then have s: "stream_file op (parse_command seg) = None"
    unfolding parse_command_def a by (simp add: stream_file_def empty_command_def)
  have "input_file (parse_command seg) = None \<and> output_file (parse_command seg) = None"
    if "first_redirect pre = None"
  proof -
    have "\<forall>t \<in> set (butlast (a # ws_tokens (snd (strtok_r seg blanks)))). \<not> is_redirect (quote_remainder t)"
      using that first_redirect_None_iff[of pre] by (simp only: e butlast_snoc) 
    then show ?thesis
      unfolding parse_command_def a
      by (intro parse_args_no_redirection) (simp_all add: empty_command_def)
  qed
  then show ?thesis using s by blast
qed

theorem missing_filename_no_redirection_witness:
  "ws_tokens ''sort < in >'' = [''sort'', ''<'', ''in''] @ [''>''] \<and> is_redirect ''>'' \<and>
   first_redirect [''sort'', ''<'', ''in''] = Some ''<'' \<and> \<not> same_stream ''<'' ''>'' \<and>
   output_file (parse_command ''sort < in >'') = None \<and>
   input_file (parse_command ''sort < in >'') = Some ''in'' \<and>
   ws_tokens ''sort -r <'' = [''sort'', ''-r''] @ [''<''] \<and> is_redirect ''<'' \<and>
   first_redirect [''sort'', ''-r''] = None \<and>
   input_file (parse_command ''sort -r <'') = None \<and> output_file (parse_command ''sort -r <'') = None"
proof -
  have a: "ws_tokens ''sort < in >'' = [''sort'', ''<'', ''in''] @ [''>'']" by code_simp
  have b: "is_redirect ''>''" "is_redirect ''<''" by (simp_all add: is_redirect_def)
  have c: "first_redirect [''sort'', ''<'', ''in''] = Some ''<''" by code_simp
  have d: "\<not> same_stream ''<'' ''>''" by (simp add: same_stream_def)
  have e: "\<forall>r. first_redirect [''sort'', ''<'', ''in''] = Some r \<longrightarrow> \<not> same_stream r ''>''"
    using c d by simp
  have f: "input_file (parse_command ''sort < in >'') = Some ''in''" by code_simp
  have g: "ws_tokens ''sort -r <'' = [''sort'', ''-r''] @ [''<'']" by code_simp
  have h: "first_redirect [''sort'', ''-r''] = None" by code_simp
  then have i: "\<forall>r. first_redirect [''sort'', ''-r''] = Some r \<longrightarrow> \<not> same_stream r ''<''"
    by simp
  show ?thesis
    using missing_filename_no_redirection[OF a b(1) e] missing_filename_no_redirection[OF g b(2) i]
      a b c d f g h
    by (simp add: stream_file_def)
qed

text \<open>
  Claim C6 as stated fails: the last token of \<open>ls > out >\<close> is a redirection operator
  with no file name after it, and the Stage has the output file \<open>out\<close>, set by the
  earlier operator of the same stream, at which the walk stopped.
\<close>

theorem redirect_last_token_counterexample:
  "ws_tokens ''ls > out >'' = [''ls'', ''>'', ''out'', ''>''] \<and>
   parse_pipeline ''ls > out >'' =
     [\<lparr>args = [''ls''], input_file = None, output_file = Some ''out'', append_flag = False,
        background = False\<rparr>]"
  by code_simp


text \<open>
  Claim C2 fails on the code. The segment \<open>> out\<close> is not empty after trimming, its
  first token is a redirection operator, and the walk stops there: the Stage is appended
  with \<^verbatim>\<open>args[0] == NULL\<close>. \<^verbatim>\<open>main\<close> then hands that null pointer to \<^verbatim>\<open>strcmp\<close>.
  A segment that is only \<open>&\<close> gives a Stage without arguments as well.
\<close>

theorem stage_without_arguments:
  "parse_pipeline ''> out'' =
     [\<lparr>args = [], input_file = None, output_file = Some ''out'', append_flag = False,
        background = False\<rparr>]
   \<and> is_exit (parse_pipeline ''> out'') = Inl Null_pointer
   \<and> parse_pipeline ''ls | &'' =
     [\<lparr>args = [''ls''], input_file = None, output_file = None, append_flag = False,
        background = False\<rparr>,
      \<lparr>args = [], input_file = None, output_file = None, append_flag = False,
        background = True\<rparr>]"
  by code_simp

text \<open>
  Claim C7 fails on the code. The line \<^verbatim>\<open>echo "a b"\<close> is cut at the blank before the
  quotes are looked at: the token \<^verbatim>\<open>"a\<close> has no closing quote of its own and is kept
  as it is, quote included, and \<^verbatim>\<open>b"\<close> becomes a second argument; the quote stripping of
  \<^verbatim>\<open>execute_command\<close> changes neither. And where the closing quote is in the same
  token, as in \<^verbatim>\<open>echo "hello"\<close>, the content is stored once, stripped, but the empty rest
  of the token is stored as one more argument.
\<close>

theorem quoted_argument_split:
  "parse_pipeline (''echo '' @ dquote # ''a b'' @ [dquote]) =
     [\<lparr>args = [''echo'', dquote # ''a'', ''b'' @ [dquote]], input_file = None,
        output_file = None, append_flag = False, background = False\<rparr>]
   \<and> map unquote [''echo'', dquote # ''a'', ''b'' @ [dquote]] =
        [''echo'', dquote # ''a'', ''b'' @ [dquote]]
   \<and> parse_pipeline (''echo '' @ dquote # ''hello'' @ [dquote]) =
     [\<lparr>args = [''echo'', ''hello'', []], input_file = None,
        output_file = None, append_flag = False, background = False\<rparr>]"
  by code_simp

section \<open>Pipeline executor: properties\<close>


declare spawn_stages.simps [simp del]

lemma fd_get_set [simp]: "fd_get (fd_set t n v) m = (if m = n then v else fd_get t m)"
  by (auto simp: fd_get_def fd_set_def nth_append nth_list_update)



lemma fd_get_dup2 [simp]:
  "fd_get (dup2 t old new) m = (if m = new \<and> fd_get t old \<noteq> None then fd_get t old else fd_get t m)"
  by (auto simp: dup2_def split: option.splits)

lemma fd_get_close [simp]: "fd_get (close_fd t n) m = (if m = n then None else fd_get t m)"
  by (simp add: close_fd_def)

lemma fd_get_close_from_3 [simp]: "fd_get (close_from_3 t) m = (if m < 3 then fd_get t m else None)"
  by (auto simp: close_from_3_def fd_get_def)



lemma stage_files_args [simp]: "stage_files (cmd\<lparr>args := a\<rparr>) = stage_files cmd"
  by (simp add: stage_files_def split: option.splits)



lemma open_fails_unquote [simp]:
  "open_fails ev (cmd\<lparr>args := a\<rparr>) = open_fails ev cmd"
  by (simp add: open_fails_def)




lemma spawn_done: "\<not> i < n \<Longrightarrow> spawn_stages ev pl n i f p = (True, p)"
  by (subst spawn_stages.simps) simp

lemma spawn_fail: "i < n - 1 \<Longrightarrow> \<not> pipe_ok ev i \<Longrightarrow> spawn_stages ev pl n i f p = (False, p)"
  by (subst spawn_stages.simps) simp

lemma spawn_last:
  "i < n \<Longrightarrow> \<not> i < n - 1 \<Longrightarrow>
   spawn_stages ev pl n i f p =
     (True, if f \<noteq> 0 then close_in (execute_command ev (pl ! i) f 1 p) f
            else execute_command ev (pl ! i) f 1 p)"
  by (subst spawn_stages.simps) (simp add: Let_def spawn_done)

lemma spawn_mid:
  assumes "i < n - 1" and "pipe_ok ev i"
  shows "spawn_stages ev pl n i f p =
     spawn_stages ev pl n (i + 1) (fst (fst (pipe_fds p)))
       (close_in
          (if f \<noteq> 0
           then close_in (execute_command ev (pl ! i) f (snd (fst (pipe_fds p))) (snd (pipe_fds p))) f
           else execute_command ev (pl ! i) f (snd (fst (pipe_fds p))) (snd (pipe_fds p)))
          (snd (fst (pipe_fds p))))"
proof -
  have "i < n" using assms(1) by simp
  then show ?thesis using assms by (subst spawn_stages.simps) (simp add: Let_def)
qed




lemma wait_loop_eq: "wait_loop cs done = done @ cs"
  by (induction cs arbitrary: "done") simp_all

lemma spawn_stages_completes:
  "k = n - i \<Longrightarrow> \<forall>j. i \<le> j \<and> j < n - 1 \<longrightarrow> pipe_ok ev j \<Longrightarrow>
   \<exists>p' cs. spawn_stages ev pl n i f p = (True, p') \<and> children p' = children p @ cs \<and>
     length cs = n - i \<and> reaped p' = reaped p"
proof (induction k arbitrary: i f p)
  case 0
  then have "\<not> i < n" by simp
  then show ?case by (simp add: spawn_done)
next
  case (Suc k)
  then have lt: "i < n" by simp
  show ?case
  proof (cases "i < n - 1")
    case False
    have "n - i = 1" using lt False by simp
    then show ?thesis
      by (auto simp: spawn_last[OF lt False] execute_command_def close_in_def)
  next
    case True
    then have ok: "pipe_ok ev i" using Suc.prems(2) by simp
    define q where "q = close_in
          (if f \<noteq> 0
           then close_in (execute_command ev (pl ! i) f (snd (fst (pipe_fds p))) (snd (pipe_fds p))) f
           else execute_command ev (pl ! i) f (snd (fst (pipe_fds p))) (snd (pipe_fds p)))
          (snd (fst (pipe_fds p)))"
    define c where "c = child_run ev ((pl ! i)\<lparr>args := map unquote (args (pl ! i))\<rparr>)
                          (fds (snd (pipe_fds p))) f (snd (fst (pipe_fds p)))"
    have q: "children q = children p @ [c]" "reaped q = reaped p"
      by (simp_all add: q_def c_def execute_command_def close_in_def pipe_fds_def Let_def)
    have k: "k = n - (i + 1)" using Suc.prems(1) by simp
    have pk: "\<forall>j. i + 1 \<le> j \<and> j < n - 1 \<longrightarrow> pipe_ok ev j" using Suc.prems(2) by simp
    from Suc.IH[OF k pk, of "fst (fst (pipe_fds p))" q]
    obtain p' cs where ih: "spawn_stages ev pl n (i + 1) (fst (fst (pipe_fds p))) q = (True, p')"
      "children p' = children q @ cs" "length cs = n - (i + 1)" "reaped p' = reaped q" by blast
    have "spawn_stages ev pl n i f p = (True, p')"
      using spawn_mid[OF True ok, of pl f p] ih(1) by (simp add: q_def)
    moreover have "children p' = children p @ (c # cs)" using ih(2) q(1) by simp
    moreover have "length (c # cs) = n - i" using ih(3) lt by simp
    ultimately show ?thesis using ih(4) q(2)
      by (intro exI[of _ p'] exI[of _ "c # cs"]) simp
  qed
qed

lemma child_run_fields:
  assumes "args c = args c'" "input_file c = input_file c'" "output_file c = output_file c'"
    "append_flag c = append_flag c'"
  shows "child_run ev c t f out = child_run ev c' t f out"
  using assms
  by (auto simp: child_run_def redirect_stdin_def redirect_stdout_def split: option.splits)

lemma execute_command_background [simp]:
  "execute_command ev (cmd\<lparr>background := b\<rparr>) f out p = execute_command ev cmd f out p"
proof -
  have "child_run ev (cmd\<lparr>background := b, args := map unquote (args (cmd\<lparr>background := b\<rparr>))\<rparr>) (fds p) f out =
        child_run ev (cmd\<lparr>args := map unquote (args cmd)\<rparr>) (fds p) f out"
    by (rule child_run_fields) simp_all
  then show ?thesis by (simp add: execute_command_def)
qed

lemma nth_update_background:
  "execute_command ev ((pl[j := (pl ! j)\<lparr>background := b\<rparr>]) ! i) f out p =
   execute_command ev (pl ! i) f out p"
proof (cases "i = j \<and> j < length pl")
  case True
  then show ?thesis by simp
next
  case False
  then have "(pl[j := (pl ! j)\<lparr>background := b\<rparr>]) ! i = pl ! i"
    by (cases "i = j") (simp_all add: list_update_beyond)
  then show ?thesis by simp
qed

lemma spawn_stages_background:
  "spawn_stages ev (pl[j := (pl ! j)\<lparr>background := b\<rparr>]) n i f p = spawn_stages ev pl n i f p"
proof (induction ev pl n i f p rule: spawn_stages.induct)
  case (1 ev pipeline cmd_count i input_fd p)
  show ?case
    apply (subst (1 2) spawn_stages.simps)
    using 1 by (simp add: Let_def nth_update_background)
qed



text \<open>
  Claim C3. When every stage of a pipeline of at least one stage has been started, the
  wait is decided by the background flag of the last stage alone. With the flag unset
  the shell reaps every child it has, those of earlier pipelines included, and sets
  \<^verbatim>\<open>foreground_mode\<close> to 1; with the flag set it reaps none and sets
  \<^verbatim>\<open>foreground_mode\<close> to 0. Changing the background flag of any earlier stage changes
  nothing in what \<^verbatim>\<open>execute_pipeline\<close> does.
\<close>

theorem wait_decided_by_last_stage:
  assumes ne: "pipeline \<noteq> []" and ok: "\<forall>i < length pipeline - 1. pipe_ok ev i"
  shows "(\<exists>p' cs. execute_pipeline ev pipeline p = Inr p' \<and> length cs = length pipeline \<and>
            (if background (last pipeline)
             then children p' = children p @ cs \<and> reaped p' = reaped p \<and> foreground_mode p' = 0
             else children p' = [] \<and> reaped p' = reaped p @ children p @ cs \<and> foreground_mode p' = 1))
       \<and> (\<forall>j b. j < length pipeline - 1 \<longrightarrow>
            execute_pipeline ev (pipeline[j := (pipeline ! j)\<lparr>background := b\<rparr>]) p =
            execute_pipeline ev pipeline p)"
proof
  have pk: "\<forall>j. 0 \<le> j \<and> j < length pipeline - 1 \<longrightarrow> pipe_ok ev j" using ok by simp
  from spawn_stages_completes[OF _ pk, of "length pipeline" pipeline 0 p]
  obtain p1 cs where s: "spawn_stages ev pipeline (length pipeline) 0 0 p = (True, p1)"
    "children p1 = children p @ cs" "length cs = length pipeline" "reaped p1 = reaped p"
    by auto
  have l: "pipeline ! (length pipeline - 1) = last pipeline" using ne by (simp add: last_conv_nth)
  show "\<exists>p' cs. execute_pipeline ev pipeline p = Inr p' \<and> length cs = length pipeline \<and>
            (if background (last pipeline)
             then children p' = children p @ cs \<and> reaped p' = reaped p \<and> foreground_mode p' = 0
             else children p' = [] \<and> reaped p' = reaped p @ children p @ cs \<and> foreground_mode p' = 1)"
  proof (cases "background (last pipeline)")
    case True
    then have "execute_pipeline ev pipeline p = Inr (p1\<lparr>foreground_mode := 0\<rparr>)"
      using ne s(1) l by (simp add: execute_pipeline_def Let_def)
    then show ?thesis using True s by auto
  next
    case False
    then have "execute_pipeline ev pipeline p = Inr ((wait_all p1)\<lparr>foreground_mode := 1\<rparr>)"
      using ne s(1) l by (simp add: execute_pipeline_def Let_def)
    then show ?thesis using False s by (auto simp: wait_all_def wait_loop_eq)
  qed
next
  show "\<forall>j b. j < length pipeline - 1 \<longrightarrow>
            execute_pipeline ev (pipeline[j := (pipeline ! j)\<lparr>background := b\<rparr>]) p =
            execute_pipeline ev pipeline p"
  proof (intro allI impI)
    fix j b assume j: "j < length pipeline - 1"
    then have "(pipeline[j := (pipeline ! j)\<lparr>background := b\<rparr>]) ! (length pipeline - 1) =
               pipeline ! (length pipeline - 1)" by simp
    then show "execute_pipeline ev (pipeline[j := (pipeline ! j)\<lparr>background := b\<rparr>]) p =
            execute_pipeline ev pipeline p"
      by (simp only: execute_pipeline_def Let_def spawn_stages_background length_list_update)
  qed
qed

lemma open_effect_read [simp]: "open_effect (File_read f) fs = fs"
  by (simp add: open_effect_def)


lemma open_effect_commute:
  "open_effect d (open_effect e fs) = open_effect e (open_effect d fs)"
  by (cases d; cases e) (auto simp: open_effect_def fun_upd_twist)




lemma flagged_first_eq:
  "flagged_first =
     [\<lparr>args = [''sleep'', ''5''], input_file = None, output_file = None, append_flag = False,
        background = True\<rparr>,
      \<lparr>args = [''cat''], input_file = None, output_file = None, append_flag = False,
        background = False\<rparr>]"
  unfolding flagged_first_def by code_simp


theorem wait_decided_by_last_stage_witness:
  "flagged_first \<noteq> [] \<and> length flagged_first = 2 \<and> pipe_ok lenient_env 0 \<and>
   background (flagged_first ! 0) \<and> \<not> background (last flagged_first) \<and>
   (\<exists>p' cs. execute_pipeline lenient_env flagged_first busy_proc = Inr p' \<and> length cs = 2 \<and>
      children p' = [] \<and> reaped p' = children busy_proc @ cs \<and> foreground_mode p' = 1) \<and>
   execute_pipeline lenient_env (flagged_first[0 := (flagged_first ! 0)\<lparr>background := False\<rparr>]) busy_proc =
     execute_pipeline lenient_env flagged_first busy_proc"
proof -
  have a: "flagged_first \<noteq> []" "length flagged_first = 2" "background (flagged_first ! 0)"
    "\<not> background (last flagged_first)"
    by (simp_all add: flagged_first_eq)
  have b: "\<forall>i < length flagged_first - 1. pipe_ok lenient_env i" "pipe_ok lenient_env 0"
    by (simp_all add: lenient_env_def)
  have r: "reaped busy_proc = []" by (simp add: busy_proc_def fresh_proc_def)
  show ?thesis
    using wait_decided_by_last_stage[OF a(1) b(1), of busy_proc] a b(2) r
    by auto
qed







end
